theory Spec2Isabelle
  imports Main "HOL-Library.Sublist"
begin

section \<open>Python strings\<close>

text \<open>
  A Python \<open>str\<close> is a sequence of Unicode code points; it is modelled as a list of
  natural numbers, one per code point, so that \<open>length\<close>, slicing and the character
  classes count what Python counts.  \<open>S\<close> turns an ASCII literal into such a list.
\<close>

type_synonym pystr = "nat list"

abbreviation S :: "string \<Rightarrow> pystr" where
  "S s \<equiv> map of_char s"

text \<open>The exceptions the modelled code can meet.\<close>

datatype error =
  IndexError | KeyError | TypeError | ValueError | UnicodeDecodeError | UnicodeEncodeError | OSError

definition and_then :: "error + 'a \<Rightarrow> ('a \<Rightarrow> error + 'b) \<Rightarrow> error + 'b" where
  "and_then r f = (case r of Inl e \<Rightarrow> Inl e | Inr x \<Rightarrow> f x)"

text \<open>
  \<open>str.isspace\<close> of one code point: the class that \<open>str.strip()\<close> removes and that
  \<open>\s\<close> matches in a \<open>str\<close> pattern.
\<close>

definition isspace :: "nat \<Rightarrow> bool" where
  "isspace c = ((9 \<le> c \<and> c \<le> 13) \<or> (28 \<le> c \<and> c \<le> 32) \<or> c = 133 \<or> c = 160
     \<or> c = 5760 \<or> (8192 \<le> c \<and> c \<le> 8202) \<or> c = 8232 \<or> c = 8233 \<or> c = 8239
     \<or> c = 8287 \<or> c = 12288)"

text \<open>The line boundaries of \<open>str.splitlines()\<close>.\<close>

definition is_linebreak :: "nat \<Rightarrow> bool" where
  "is_linebreak c = ((10 \<le> c \<and> c \<le> 13) \<or> (28 \<le> c \<and> c \<le> 30) \<or> c = 133
     \<or> c = 8232 \<or> c = 8233)"

text \<open>
  \<open>\w\<close> in a \<open>str\<close> pattern: the ASCII letters, digits and underscore, and every other
  code point that Unicode classes as alphanumeric.  The Unicode table is not part of the
  repository; it is the parameter \<open>W\<close>, consulted only above the ASCII range.
\<close>

definition is_word :: "(nat \<Rightarrow> bool) \<Rightarrow> nat \<Rightarrow> bool" where
  "is_word W c = ((48 \<le> c \<and> c \<le> 57) \<or> (65 \<le> c \<and> c \<le> 90) \<or> c = 95
     \<or> (97 \<le> c \<and> c \<le> 122) \<or> (128 \<le> c \<and> W c))"

definition strip :: "pystr \<Rightarrow> pystr" where
  "strip s = rev (dropWhile isspace (rev (dropWhile isspace s)))"

definition startswith :: "pystr \<Rightarrow> pystr \<Rightarrow> bool" where
  "startswith s p = prefix p s"

text \<open>
  \<open>str.splitlines()\<close>: a line ends at a line boundary, \<open>\r\n\<close> counts as one boundary,
  and no empty line follows a final boundary.  \<open>cur\<close> is the line read so far.
\<close>

fun splitlines_from :: "pystr \<Rightarrow> pystr \<Rightarrow> pystr list" where
  "splitlines_from cur [] = (if cur = [] then [] else [cur])"
| "splitlines_from cur (c # cs) =
     (if c = 13 then
        (case cs of
           [] \<Rightarrow> [cur]
         | d # ds \<Rightarrow> if d = 10 then cur # splitlines_from [] ds
                    else cur # splitlines_from [] (d # ds))
      else if is_linebreak c then cur # splitlines_from [] cs
      else splitlines_from (cur @ [c]) cs)"

definition splitlines :: "pystr \<Rightarrow> pystr list" where
  "splitlines s = splitlines_from [] s"

text \<open>\<open>sep.join(xs)\<close>.\<close>

fun join :: "pystr \<Rightarrow> pystr list \<Rightarrow> pystr" where
  "join sep [] = []"
| "join sep [x] = x"
| "join sep (x # y # ys) = x @ sep @ join sep (y # ys)"

text \<open>\<open>str(n)\<close> for a non-negative integer: its decimal digits.\<close>

fun str_nat :: "nat \<Rightarrow> pystr" where
  "str_nat n = (if n < 10 then [48 + n] else str_nat (n div 10) @ [48 + n mod 10])"

text \<open>
  A \<open>dict\<close> keeps its keys in insertion order: an association list, read with
  \<open>map_of\<close>.  Assigning to a present key replaces the value in place, assigning to a
  new key appends it.
\<close>

type_synonym 'v pydict = "(pystr \<times> 'v) list"

definition dict_contains :: "'v pydict \<Rightarrow> pystr \<Rightarrow> bool" where
  "dict_contains d k = (map_of d k \<noteq> None)"

definition dict_getitem :: "'v pydict \<Rightarrow> pystr \<Rightarrow> error + 'v" where
  "dict_getitem d k = (case map_of d k of None \<Rightarrow> Inl KeyError | Some v \<Rightarrow> Inr v)"

fun dict_setitem :: "'v pydict \<Rightarrow> pystr \<Rightarrow> 'v \<Rightarrow> 'v pydict" where
  "dict_setitem [] k v = [(k, v)]"
| "dict_setitem (p # ps) k v = (if fst p = k then (k, v) # ps else p # dict_setitem ps k v)"

definition list_getitem :: "'a list \<Rightarrow> nat \<Rightarrow> error + 'a" where
  "list_getitem xs i = (if i < length xs then Inr (xs ! i) else Inl IndexError)"

text \<open>\<open>xs.pop(0)\<close>, returning the list that is left.\<close>

definition list_pop0 :: "'a list \<Rightarrow> error + 'a list" where
  "list_pop0 xs = (case xs of [] \<Rightarrow> Inl IndexError | _ # r \<Rightarrow> Inr r)"

text \<open>A \<open>for\<close> loop whose body may raise: the first exception ends the loop.\<close>

fun for_each :: "('s \<Rightarrow> 'a \<Rightarrow> error + 's) \<Rightarrow> 's \<Rightarrow> 'a list \<Rightarrow> error + 's" where
  "for_each f s [] = Inr s"
| "for_each f s (x # xs) = and_then (f s x) (\<lambda>s'. for_each f s' xs)"

section \<open>The mbox parser (extract.py)\<close>

record email =
  headers :: "pystr pydict"
  body :: pystr

text \<open>
  \<open>re.split(r'(?=^From )', mbox_content, flags=re.MULTILINE)\<close>: the text is cut, without
  consuming anything, before every \<open>From \<close> that stands at the start of the text or
  right after a \<open>\n\<close>.  \<open>bol\<close> says whether the position is at the beginning of a line,
  \<open>cur\<close> is the part read so far.  A match at position 0 leaves an empty first part
  (Python 3.7 and later, where \<open>re.split\<close> splits on an empty match).
\<close>

fun split_From :: "bool \<Rightarrow> pystr \<Rightarrow> pystr \<Rightarrow> pystr list" where
  "split_From bol cur [] = [cur]"
| "split_From bol cur (c # cs) =
     (if bol \<and> prefix (S ''From '') (c # cs) then cur # split_From False [c] cs
      else split_From (c = 10) (cur @ [c]) cs)"

definition re_split_From :: "pystr \<Rightarrow> pystr list" where
  "re_split_From mbox_content = split_From True [] mbox_content"

text \<open>
  Lines 50 to 65: the loop over \<open>lines[1:]\<close> by index.  The state is
  \<open>(header_section, header_lines, body_lines)\<close>.
\<close>

definition section_step ::
  "pystr list \<Rightarrow> bool \<times> pystr list \<times> pystr list \<Rightarrow> nat
     \<Rightarrow> error + bool \<times> pystr list \<times> pystr list" where
  "section_step lines st i =
     (case st of (header_section, header_lines, body_lines) \<Rightarrow>
        and_then (list_getitem lines i) (\<lambda>line.
          if header_section \<and> strip line = [] then Inr (False, header_lines, body_lines)
          else if header_section then Inr (header_section, header_lines @ [line], body_lines)
          else Inr (header_section, header_lines, body_lines @ [line])))"

text \<open>
  \<open>re.match(r'^([\w-]+):\s*(.*)', header_line)\<close>: the key is the longest run of word
  characters and hyphens, it must not be empty and a colon must follow; the value is
  what follows the colon and the white space after it, up to a \<open>\n\<close>.
\<close>

definition header_match :: "(nat \<Rightarrow> bool) \<Rightarrow> pystr \<Rightarrow> (pystr \<times> pystr) option" where
  "header_match W header_line =
     (let key = takeWhile (\<lambda>c. is_word W c \<or> c = 45) header_line;
          rest = dropWhile (\<lambda>c. is_word W c \<or> c = 45) header_line
      in if key = [] then None
         else (case rest of
                 [] \<Rightarrow> None
               | c # after \<Rightarrow>
                   if c = 58 then Some (key, takeWhile (\<lambda>c. c \<noteq> 10) (dropWhile isspace after))
                   else None))"

text \<open>Line 71: the test for a continuation line.\<close>

definition is_continuation :: "pystr \<Rightarrow> bool" where
  "is_continuation header_line =
     (header_line \<noteq> [] \<and> (startswith header_line [32] \<or> startswith header_line [9]))"

text \<open>
  Lines 69 to 89: one header line.  The state is the header mapping and
  \<open>current_header_key\<close>.
\<close>

definition header_step ::
  "(nat \<Rightarrow> bool) \<Rightarrow> pystr pydict \<times> pystr option \<Rightarrow> pystr
     \<Rightarrow> error + pystr pydict \<times> pystr option" where
  "header_step W st header_line =
     (case st of (hdrs, current_header_key) \<Rightarrow>
        if is_continuation header_line then
          (case current_header_key of
             None \<Rightarrow> Inr st
           | Some k \<Rightarrow>
               if k \<noteq> [] \<and> dict_contains hdrs k then
                 and_then (dict_getitem hdrs k) (\<lambda>old.
                   Inr (dict_setitem hdrs k (old @ [10] @ strip header_line), current_header_key))
               else Inr st)
        else
          (case header_match W header_line of
             None \<Rightarrow> Inr st
           | Some (key, val) \<Rightarrow>
               if \<not> dict_contains hdrs key then Inr (dict_setitem hdrs key (strip val), Some key)
               else Inr st))"

text \<open>
  What a header line does to the state when no exception is raised; the proofs show
  that \<open>header_step\<close> never raises and always does this.
\<close>

definition header_effect ::
  "(nat \<Rightarrow> bool) \<Rightarrow> pystr pydict \<times> pystr option \<Rightarrow> pystr \<Rightarrow> pystr pydict \<times> pystr option" where
  "header_effect W st header_line =
     (case header_step W st header_line of Inl e \<Rightarrow> st | Inr st' \<Rightarrow> st')"

text \<open>
  Lines 31 to 93: one part of the split.  \<open>None\<close> is the \<open>continue\<close> that skips the part.
\<close>

definition parse_part :: "(nat \<Rightarrow> bool) \<Rightarrow> pystr \<Rightarrow> error + email option" where
  "parse_part W email_text =
     (if strip email_text = [] then Inr None
      else
        let lines = splitlines email_text in
        if lines = [] then Inr None
        else
          and_then (for_each (section_step lines) (True, [], []) [1..<length lines])
            (\<lambda>(header_section, header_lines, body_lines).
               and_then (for_each (header_step W) ([], None) header_lines)
                 (\<lambda>(hdrs, current_header_key).
                    Inr (Some \<lparr>headers = hdrs, body = join [10] body_lines\<rparr>))))"

definition append_email :: "(nat \<Rightarrow> bool) \<Rightarrow> email list \<Rightarrow> pystr \<Rightarrow> error + email list" where
  "append_email W emails email_text =
     and_then (parse_part W email_text)
       (\<lambda>r. case r of None \<Rightarrow> Inr emails | Some email_data \<Rightarrow> Inr (emails @ [email_data]))"

text \<open>
  \<open>parse_mbox\<close> returns what it printed and the list of records, or the exception it
  raised.
\<close>

definition parse_mbox :: "(nat \<Rightarrow> bool) \<Rightarrow> pystr \<Rightarrow> error + pystr list \<times> email list" where
  "parse_mbox W mbox_content =
     and_then
       (let email_parts = re_split_From mbox_content in
        if email_parts \<noteq> [] then
          and_then (list_getitem email_parts 0) (\<lambda>first.
            if strip first = [] then list_pop0 email_parts else Inr email_parts)
        else Inr email_parts)
       (\<lambda>email_parts.
          if email_parts = [] then Inr ([S ''No emails found in the provided content.''], [])
          else and_then (for_each (append_email W) [] email_parts) (\<lambda>emails. Inr ([], emails)))"

section \<open>Reading the mbox file (extract.py, lines 113 to 118)\<close>

text \<open>
  The file is opened with \<open>encoding='utf-8'\<close> and an error handler.  The decoder is
  Python's: a byte sequence that is not UTF-8 is handed to the error handler together
  with the length of the undecodable range, and decoding goes on behind that range.
  Bytes are numbers below 256.
\<close>

datatype errors = Strict | Ignore | Replace

datatype utf8_step = Decoded nat nat | Invalid nat

definition is_cont :: "nat \<Rightarrow> bool" where
  "is_cont b = (128 \<le> b \<and> b < 192)"

text \<open>
  The first code point of a byte string that begins with \<open>b\<close> and goes on with
  \<open>bs\<close>, together with the number of bytes it takes; or the length of the range that
  cannot be decoded.
\<close>

definition utf8_first :: "nat \<Rightarrow> nat list \<Rightarrow> utf8_step" where
  "utf8_first b bs =
     (if b < 128 then Decoded b 1
      else if b < 194 then Invalid 1
      else if b < 224 then
        (case bs of
           [] \<Rightarrow> Invalid 1
         | b2 # _ \<Rightarrow> if is_cont b2 then Decoded ((b - 192) * 64 + (b2 - 128)) 2 else Invalid 1)
      else if b < 240 then
        (case bs of
           [] \<Rightarrow> Invalid 1
         | b2 # bs2 \<Rightarrow>
             if \<not> is_cont b2 \<or> (if b2 < 160 then b = 224 else b = 237) then Invalid 1
             else (case bs2 of
                     [] \<Rightarrow> Invalid 2
                   | b3 # _ \<Rightarrow>
                       if is_cont b3
                       then Decoded ((b - 224) * 4096 + (b2 - 128) * 64 + (b3 - 128)) 3
                       else Invalid 2))
      else if b < 245 then
        (case bs of
           [] \<Rightarrow> Invalid 1
         | b2 # bs2 \<Rightarrow>
             if \<not> is_cont b2 \<or> (if b2 < 144 then b = 240 else b = 244) then Invalid 1
             else (case bs2 of
                     [] \<Rightarrow> Invalid 2
                   | b3 # bs3 \<Rightarrow>
                       if \<not> is_cont b3 then Invalid 2
                       else (case bs3 of
                               [] \<Rightarrow> Invalid 3
                             | b4 # _ \<Rightarrow>
                                 if is_cont b4
                                 then Decoded ((b - 240) * 262144 + (b2 - 128) * 4096
                                        + (b3 - 128) * 64 + (b4 - 128)) 4
                                 else Invalid 3)))
      else Invalid 1)"

text \<open>
  The decoder with its error handler: \<open>strict\<close> raises, \<open>ignore\<close> skips the
  undecodable range, \<open>replace\<close> puts \<open>U+FFFD\<close> in its place.  A step takes \<open>n\<close> bytes,
  \<open>b\<close> and the first \<open>n - 1\<close> of \<open>bs\<close>.
\<close>

function utf8_decode :: "errors \<Rightarrow> nat list \<Rightarrow> error + pystr" where
  "utf8_decode h [] = Inr []"
| "utf8_decode h (b # bs) =
     (case utf8_first b bs of
        Decoded c n \<Rightarrow> and_then (utf8_decode h (drop (n - 1) bs)) (\<lambda>r. Inr (c # r))
      | Invalid n \<Rightarrow>
          (case h of
             Strict \<Rightarrow> Inl UnicodeDecodeError
           | Ignore \<Rightarrow> utf8_decode h (drop (n - 1) bs)
           | Replace \<Rightarrow> and_then (utf8_decode h (drop (n - 1) bs)) (\<lambda>r. Inr (65533 # r))))"
  by pat_completeness auto
termination
  by (relation "measure (\<lambda>(h, bs). length bs)") auto

text \<open>
  The bytes of a file without the ranges that cannot be decoded: each step that decodes
  keeps its bytes, each undecodable range is left out.  This is the reading of
  \<open>errors='ignore'\<close> that the decoder is compared with.
\<close>

function keep_decodable :: "nat list \<Rightarrow> nat list" where
  "keep_decodable [] = []"
| "keep_decodable (b # bs) =
     (case utf8_first b bs of
        Decoded c n \<Rightarrow> b # take (n - 1) bs @ keep_decodable (drop (n - 1) bs)
      | Invalid n \<Rightarrow> keep_decodable (drop (n - 1) bs))"
  by pat_completeness auto
termination
  by (relation "measure length") auto

text \<open>
  Text mode with the default \<open>newline=None\<close>: \<open>\r\n\<close> and a lone \<open>\r\<close> are read
  as \<open>\n\<close>.
\<close>

fun universal_newlines :: "pystr \<Rightarrow> pystr" where
  "universal_newlines [] = []"
| "universal_newlines [c] = (if c = 13 then [10] else [c])"
| "universal_newlines (c # d # r) =
     (if c = 13 \<and> d = 10 then 10 # universal_newlines r
      else if c = 13 then 10 # universal_newlines (d # r)
      else c # universal_newlines (d # r))"

text \<open>
  \<open>open(input_filename, 'r', encoding='utf-8', errors='ignore')\<close> and \<open>f.read()\<close>, on
  the bytes of the file.
\<close>

definition read_mbox_content :: "nat list \<Rightarrow> error + pystr" where
  "read_mbox_content file_bytes =
     and_then (utf8_decode Ignore file_bytes) (\<lambda>s. Inr (universal_newlines s))"

definition read_and_parse :: "(nat \<Rightarrow> bool) \<Rightarrow> nat list \<Rightarrow> error + pystr list \<times> email list" where
  "read_and_parse W file_bytes = and_then (read_mbox_content file_bytes) (parse_mbox W)"

section \<open>The exporter (jsonTOeml.py)\<close>

text \<open>
  What \<open>json.load\<close> returns.  A \<open>float\<close> is \<open>m * 2 ^ e\<close>, an infinity or a NaN; an
  object is a \<open>dict\<close> in the order of the document.
\<close>

datatype pyfloat = Finite int int | PosInf | NegInf | NaN

datatype pyval =
    PyNone
  | PyBool bool
  | PyInt int
  | PyFloat pyfloat
  | PyStr pystr
  | PyList "pyval list"
  | PyDict "(pystr \<times> pyval) list"

text \<open>The truth value of a Python object, as \<open>if x\<close> and \<open>not x\<close> take it.\<close>

fun truthy :: "pyval \<Rightarrow> bool" where
  "truthy PyNone = False"
| "truthy (PyBool b) = b"
| "truthy (PyInt n) = (n \<noteq> 0)"
| "truthy (PyFloat f) = (case f of Finite m e \<Rightarrow> m \<noteq> 0 | _ \<Rightarrow> True)"
| "truthy (PyStr s) = (s \<noteq> [])"
| "truthy (PyList xs) = (xs \<noteq> [])"
| "truthy (PyDict d) = (d \<noteq> [])"

text \<open>\<open>d.get(k, default)\<close>.\<close>

definition dict_get :: "'v pydict \<Rightarrow> pystr \<Rightarrow> 'v \<Rightarrow> 'v" where
  "dict_get d k dflt = (case map_of d k of None \<Rightarrow> dflt | Some v \<Rightarrow> v)"

text \<open>
  How an f-string and \<open>str()\<close> render a value: a \<open>str\<close> is itself; the text of any
  other value is Python's, the parameter \<open>str_of\<close>.
\<close>

definition py_format :: "(pyval \<Rightarrow> pystr) \<Rightarrow> pyval \<Rightarrow> pystr" where
  "py_format str_of v = (case v of PyStr s \<Rightarrow> s | _ \<Rightarrow> str_of v)"

text \<open>The characters of \<open>[\\/*?:"<>|]\<close>.\<close>

definition is_stripped :: "nat \<Rightarrow> bool" where
  "is_stripped c = (c = 92 \<or> c = 47 \<or> c = 42 \<or> c = 63 \<or> c = 58 \<or> c = 34 \<or> c = 60
     \<or> c = 62 \<or> c = 124)"

text \<open>\<open>re.sub(r'\s+', '_', s)\<close>: every maximal run of white space becomes one underscore.\<close>

function sub_space :: "pystr \<Rightarrow> pystr" where
  "sub_space [] = []"
| "sub_space (c # cs) =
     (if isspace c then 95 # sub_space (dropWhile isspace cs) else c # sub_space cs)"
  by pat_completeness auto
termination
  by (relation "measure length") (auto simp: length_dropWhile_le less_Suc_eq_le)

text \<open>\<open>sanitize_filename\<close> on a \<open>str\<close>.\<close>

definition sanitize_filename :: "pystr \<Rightarrow> pystr" where
  "sanitize_filename filename =
     (if filename = [] then []
      else take 200 (sub_space (filter (\<lambda>c. \<not> is_stripped c) filename)))"

text \<open>
  Lines 72 to 79: the lines one header contributes to \<open>eml_content\<close>.
\<close>

definition header_text :: "(pyval \<Rightarrow> pystr) \<Rightarrow> pystr \<times> pyval \<Rightarrow> pystr" where
  "header_text str_of kv =
     (case kv of (key, v) \<Rightarrow>
        (case v of
           PyStr s \<Rightarrow> key @ S '': '' @ s @ [10]
         | PyList vs \<Rightarrow> concat (map (\<lambda>v_line. key @ S '': '' @ py_format str_of v_line @ [10]) vs)
         | _ \<Rightarrow> []))"

text \<open>
  Lines 89 to 96: \<open>filename_base\<close>.  \<open>sanitize_filename\<close> is reached with a value that
  is true; \<open>re.sub\<close> raises \<open>TypeError\<close> when that value is not a \<open>str\<close>.
\<close>

definition subject_base :: "pyval pydict \<Rightarrow> error + pyval" where
  "subject_base hdrs =
     (case map_of hdrs (S ''Subject'') of
        None \<Rightarrow> Inr (PyStr [])
      | Some v \<Rightarrow>
          if truthy v then
            (case v of PyStr s \<Rightarrow> Inr (PyStr (sanitize_filename s)) | _ \<Rightarrow> Inl TypeError)
          else Inr (PyStr []))"

definition filename_base :: "pyval pydict \<Rightarrow> nat \<Rightarrow> error + pyval" where
  "filename_base hdrs i =
     and_then
       (case map_of hdrs (S ''X-CCC-HASH'') of
          None \<Rightarrow> subject_base hdrs
        | Some v \<Rightarrow> if truthy v then Inr v else subject_base hdrs)
       (\<lambda>b. if \<not> truthy b then Inr (PyStr (S ''email_'' @ str_nat (i + 1))) else Inr b)"

text \<open>Line 98: \<open>eml_filename\<close>.\<close>

definition eml_filename :: "(pyval \<Rightarrow> pystr) \<Rightarrow> pyval pydict \<Rightarrow> nat \<Rightarrow> error + pystr" where
  "eml_filename str_of hdrs i =
     and_then (filename_base hdrs i) (\<lambda>b. Inr (py_format str_of b @ S ''.eml''))"

text \<open>\<open>os.path.join\<close> of two components, on a POSIX system.\<close>

definition path_join :: "pystr \<Rightarrow> pystr \<Rightarrow> pystr" where
  "path_join a b =
     (if startswith b [47] then b
      else if a = [] \<or> suffix [47] a then a @ b
      else a @ [47] @ b)"

text \<open>
  The world the exporter runs in: what reading the JSON file gives, whether a path
  exists, what creating a directory and writing a file do, and what \<open>print\<close> does with
  a line on standard output.  A text carried by an outcome is the text of the
  exception, as \<open>{e}\<close> prints it.  \<open>print\<close> raises when standard output cannot take the
  line: \<open>UnicodeEncodeError\<close> when its encoding has no character for a code point of
  the line, an \<open>OSError\<close> when the stream is broken.
\<close>

datatype load_result = FileNotFound | JSONDecodeError | LoadFailed pystr | Loaded pyval

datatype mkdir_result = DirCreated | DirOSError pystr | DirRaised error

datatype write_result = Written | WriteIOError pystr | WriteFailed pystr

datatype print_result = Printed | PrintRaised error pystr

record world =
  load_json :: "pystr \<Rightarrow> load_result"
  path_exists :: "pystr \<Rightarrow> bool"
  makedirs :: "pystr \<Rightarrow> mkdir_result"
  write_file :: "pystr \<Rightarrow> pystr \<Rightarrow> write_result"
  print_stdout :: "pystr \<Rightarrow> print_result"

text \<open>
  What a run leaves behind: the lines printed, and the files written with success, in
  the order of the writes.  A later write to the same path replaces the earlier file.
\<close>

record export_state =
  stdout :: "pystr list"
  written :: "(pystr \<times> pystr) list"

text \<open>A \<open>print\<close> that no \<open>try\<close> encloses: its exception leaves the function.\<close>

definition print_line :: "world \<Rightarrow> pystr \<Rightarrow> export_state \<Rightarrow> error + export_state" where
  "print_line w msg st =
     (case print_stdout w msg of
        Printed \<Rightarrow> Inr (st\<lparr>stdout := stdout st @ [msg]\<rparr>)
      | PrintRaised e txt \<Rightarrow> Inl e)"

text \<open>The lines that report a skipped element begin with \<open>Warning: \<close>.\<close>

definition is_warning :: "pystr \<Rightarrow> bool" where
  "is_warning line = prefix (S ''Warning: '') line"

definition quoted :: "pystr \<Rightarrow> pystr" where
  "quoted s = [39] @ s @ [39]"

text \<open>Lines 60 and 67: the two warnings.\<close>

definition not_dict_warning :: "nat \<Rightarrow> pystr" where
  "not_dict_warning i =
     S ''Warning: Skipping item at index '' @ str_nat i @ S '' as it'' @ [39]
       @ S ''s not a dictionary (email object).''"

definition headers_warning :: "nat \<Rightarrow> pystr" where
  "headers_warning i =
     S ''Warning: Headers for email at index '' @ str_nat i
       @ S '' are not in the expected dictionary format. Skipping.''"

text \<open>
  Lines 59 to 99, which touch neither a file nor standard output: what is derived from
  the element at index \<open>i\<close>, the reason to skip it or the path and the content of its
  file.
\<close>

datatype derived = NotAnObject | HeadersNotAnObject | EmlFile pystr pystr

definition derive_eml :: "(pyval \<Rightarrow> pystr) \<Rightarrow> pystr \<Rightarrow> nat \<Rightarrow> pyval \<Rightarrow> error + derived" where
  "derive_eml str_of output_dir i email_obj =
     (case email_obj of
        PyDict d \<Rightarrow>
          (case dict_get d (S ''headers'') (PyDict []) of
             PyDict hdrs \<Rightarrow>
               let eml_content =
                     concat (map (header_text str_of) hdrs) @ [10]
                       @ py_format str_of (dict_get d (S ''body'') (PyStr []))
               in and_then (eml_filename str_of hdrs i) (\<lambda>name.
                    Inr (EmlFile (path_join output_dir name) eml_content))
           | _ \<Rightarrow> Inr HeadersNotAnObject)
      | _ \<Rightarrow> Inr NotAnObject)"

text \<open>
  Lines 101 to 108: the write and its report.  The report of success is printed inside
  the \<open>try\<close>, so an exception of that \<open>print\<close> is caught by the handler for its class;
  a \<open>print\<close> in a handler is enclosed by nothing.
\<close>

definition write_eml :: "world \<Rightarrow> export_state \<Rightarrow> pystr \<Rightarrow> pystr \<Rightarrow> error + export_state" where
  "write_eml w st eml_file_path eml_content =
     (case write_file w eml_file_path eml_content of
        Written \<Rightarrow>
          (let st' = st\<lparr>written := written st @ [(eml_file_path, eml_content)]\<rparr> in
           case print_stdout w (S ''Successfully created '' @ quoted eml_file_path) of
             Printed \<Rightarrow>
               Inr (st'\<lparr>stdout := stdout st' @ [S ''Successfully created '' @ quoted eml_file_path]\<rparr>)
           | PrintRaised e txt \<Rightarrow>
               if e = OSError
               then print_line w (S ''Error writing .eml file '' @ quoted eml_file_path
                      @ S '': '' @ txt) st'
               else print_line w (S ''An unexpected error occurred while writing ''
                      @ quoted eml_file_path @ S '': '' @ txt) st')
      | WriteIOError txt \<Rightarrow>
          print_line w (S ''Error writing .eml file '' @ quoted eml_file_path @ S '': '' @ txt) st
      | WriteFailed txt \<Rightarrow>
          print_line w (S ''An unexpected error occurred while writing ''
            @ quoted eml_file_path @ S '': '' @ txt) st)"

text \<open>Lines 58 to 108: one element of the array, with its index.\<close>

definition export_item ::
  "(pyval \<Rightarrow> pystr) \<Rightarrow> world \<Rightarrow> pystr \<Rightarrow> export_state \<Rightarrow> nat \<times> pyval \<Rightarrow> error + export_state" where
  "export_item str_of w output_dir st item =
     (case item of (i, email_obj) \<Rightarrow>
        and_then (derive_eml str_of output_dir i email_obj) (\<lambda>d.
          case d of
            NotAnObject \<Rightarrow> print_line w (not_dict_warning i) st
          | HeadersNotAnObject \<Rightarrow> print_line w (headers_warning i) st
          | EmlFile eml_file_path eml_content \<Rightarrow> write_eml w st eml_file_path eml_content))"

text \<open>
  Lines 59 and 66: the elements that are passed over with a warning, those that are not
  an object and those whose \<open>headers\<close> are not an object.
\<close>

definition is_skipped :: "pyval \<Rightarrow> bool" where
  "is_skipped email_obj =
     (case email_obj of
        PyDict d \<Rightarrow>
          (case dict_get d (S ''headers'') (PyDict []) of PyDict hdrs \<Rightarrow> False | _ \<Rightarrow> True)
      | _ \<Rightarrow> True)"

text \<open>
  An element as \<open>parse_mbox\<close> produces it and as the data model describes it: an
  object whose \<open>headers\<close> are an object with \<open>str\<close> values (absent \<open>headers\<close> are
  read as empty, as line 63 reads them).
\<close>

definition is_email_record :: "pyval \<Rightarrow> bool" where
  "is_email_record email_obj =
     (case email_obj of
        PyDict d \<Rightarrow>
          (case dict_get d (S ''headers'') (PyDict []) of
             PyDict hdrs \<Rightarrow> list_all (\<lambda>kv. case snd kv of PyStr s \<Rightarrow> True | _ \<Rightarrow> False) hdrs
           | _ \<Rightarrow> False)
      | _ \<Rightarrow> False)"

text \<open>
  Lines 48 to 54: the output directory.  The result says whether the run goes on.  The
  report of the creation is printed inside the \<open>try\<close>, whose handler takes an
  \<open>OSError\<close> only.
\<close>

definition ensure_dir :: "world \<Rightarrow> pystr \<Rightarrow> export_state \<Rightarrow> error + bool \<times> export_state" where
  "ensure_dir w output_dir st =
     (if \<not> path_exists w output_dir then
        (case makedirs w output_dir of
           DirCreated \<Rightarrow>
             (case print_stdout w (S ''Created output directory: '' @ quoted output_dir) of
                Printed \<Rightarrow>
                  Inr (True, st\<lparr>stdout := stdout st
                         @ [S ''Created output directory: '' @ quoted output_dir]\<rparr>)
              | PrintRaised e txt \<Rightarrow>
                  if e = OSError
                  then and_then (print_line w (S ''Error creating output directory ''
                         @ quoted output_dir @ S '': '' @ txt) st) (\<lambda>st'. Inr (False, st'))
                  else Inl e)
         | DirOSError txt \<Rightarrow>
             and_then (print_line w (S ''Error creating output directory '' @ quoted output_dir
               @ S '': '' @ txt) st) (\<lambda>st'. Inr (False, st'))
         | DirRaised e \<Rightarrow> Inl e)
      else Inr (True, st))"

text \<open>\<open>convert_json_to_eml(json_file_path, output_dir)\<close>.\<close>

definition convert_json_to_eml ::
  "(pyval \<Rightarrow> pystr) \<Rightarrow> world \<Rightarrow> pystr \<Rightarrow> pystr \<Rightarrow> error + export_state" where
  "convert_json_to_eml str_of w json_file_path output_dir =
     (let st0 = \<lparr>stdout = [], written = []\<rparr> in
      case load_json w json_file_path of
        FileNotFound \<Rightarrow>
          print_line w (S ''Error: JSON file not found at '' @ quoted json_file_path) st0
      | JSONDecodeError \<Rightarrow>
          print_line w (S ''Error: Could not decode JSON from '' @ quoted json_file_path
            @ S ''. Make sure it'' @ [39] @ S ''s a valid JSON file.'') st0
      | LoadFailed txt \<Rightarrow>
          print_line w
            (S ''An unexpected error occurred while reading the JSON file: '' @ txt) st0
      | Loaded emails_data \<Rightarrow>
          (case emails_data of
             PyList items \<Rightarrow>
               and_then (ensure_dir w output_dir st0) (\<lambda>(go_on, st1).
                 if \<not> go_on then Inr st1
                 else
                   and_then
                     (print_line w (S ''Found '' @ str_nat (length items) @ S '' emails in ''
                        @ quoted json_file_path @ S ''. Starting conversion...'') st1)
                     (\<lambda>st2.
                        and_then (for_each (export_item str_of w output_dir) st2 (enumerate 0 items))
                          (\<lambda>st3. print_line w ([10] @ S ''Conversion complete. ''
                             @ str_nat (length items) @ S '' .eml files generated in ''
                             @ quoted output_dir @ S ''.'') st3)))
           | _ \<Rightarrow>
               print_line w
                 (S ''Error: JSON file should contain a list of email objects.'') st0))"

section \<open>Basic facts\<close>

lemma and_then_Inr [simp]: "and_then (Inr x) f = f x"
  by (simp add: and_then_def)

lemma and_then_Inl [simp]: "and_then (Inl e) f = Inl e"
  by (simp add: and_then_def)

declare str_nat.simps [simp del]

lemma for_each_total:
  assumes "\<And>s x. \<exists>s'. f s x = Inr s'"
  shows "\<exists>s'. for_each f s xs = Inr s'"
proof (induction xs arbitrary: s)
  case Nil
  then show ?case by simp
next
  case (Cons x xs)
  from assms obtain s1 where "f s x = Inr s1" by blast
  with Cons show ?case by simp
qed

lemmas eval_defs = strip_def isspace_def splitlines_def is_linebreak_def header_match_def
  is_word_def is_continuation_def startswith_def

subsection \<open>Dictionaries\<close>

lemma map_of_dict_setitem: "map_of (dict_setitem d k v) = (map_of d)(k \<mapsto> v)"
  by (induction d) (auto simp: fun_eq_iff)

lemma keys_dict_setitem:
  "map fst (dict_setitem d k v) = (if k \<in> fst ` set d then map fst d else map fst d @ [k])"
  by (induction d) auto

lemma dict_getitem_present:
  "dict_contains d k \<Longrightarrow> dict_getitem d k = Inr (the (map_of d k))"
  by (auto simp: dict_contains_def dict_getitem_def)

lemma once_if_distinct:
  "distinct (map fst h) \<Longrightarrow> map_of h k = Some x \<Longrightarrow> length (filter (\<lambda>e. fst e = k) h) = 1"
proof (induction h)
  case Nil
  then show ?case by simp
next
  case (Cons p h)
  show ?case
  proof (cases "fst p = k")
    case True
    with Cons.prems(1) have "k \<notin> fst ` set h" by simp
    then have "\<forall>e\<in>set h. fst e \<noteq> k" by (metis imageI)
    then have "filter (\<lambda>e. fst e = k) h = []" by (simp add: filter_empty_conv)
    with True show ?thesis by simp
  next
    case False
    with Cons show ?thesis by (cases p) auto
  qed
qed

section \<open>Filename sanitization\<close>

lemma sub_space_no_space: "c \<in> set (sub_space xs) \<Longrightarrow> \<not> isspace c"
proof (induction xs rule: sub_space.induct)
  case 1
  then show ?case by simp
next
  case (2 c cs)
  have "\<not> isspace 95" by (simp add: isspace_def)
  with 2 show ?case by (auto split: if_splits)
qed

lemma sub_space_subset: "set (sub_space xs) \<subseteq> insert 95 (set xs)"
proof (induction xs rule: sub_space.induct)
  case 1
  then show ?case by simp
next
  case (2 c cs)
  have "set (dropWhile isspace cs) \<subseteq> set cs"
    by (auto dest: set_dropWhileD)
  with 2 show ?case by (auto split: if_splits)
qed

lemma sub_space_id: "\<forall>c\<in>set xs. \<not> isspace c \<Longrightarrow> sub_space xs = xs"
  by (induction xs) auto

lemma sanitize_chars:
  assumes "c \<in> set (sanitize_filename s)"
  shows "\<not> is_stripped c \<and> \<not> isspace c"
proof -
  from assms have c: "c \<in> set (sub_space (filter (\<lambda>c. \<not> is_stripped c) s))"
    by (auto simp: sanitize_filename_def split: if_splits dest: in_set_takeD)
  from c have "\<not> isspace c" by (rule sub_space_no_space)
  moreover from c sub_space_subset have "c = 95 \<or> c \<in> set (filter (\<lambda>c. \<not> is_stripped c) s)"
    by blast
  then have "\<not> is_stripped c" by (auto simp: is_stripped_def)
  ultimately show ?thesis by simp
qed

lemma sanitize_length: "length (sanitize_filename s) \<le> 200"
  by (simp add: sanitize_filename_def)

text \<open>
  C10.  \<open>sanitize_filename\<close> is idempotent: its result holds none of the stripped
  characters and no white space and is at most 200 code points long, so a second
  application returns it unchanged.
\<close>

theorem sanitize_filename_idempotent:
  "sanitize_filename (sanitize_filename s) = sanitize_filename s
   \<and> (\<forall>c\<in>set (sanitize_filename s). \<not> is_stripped c \<and> \<not> isspace c)
   \<and> length (sanitize_filename s) \<le> 200"
proof -
  let ?r = "sanitize_filename s"
  have chars: "\<forall>c\<in>set ?r. \<not> is_stripped c \<and> \<not> isspace c"
    using sanitize_chars by blast
  then have "filter (\<lambda>c. \<not> is_stripped c) ?r = ?r" by simp
  moreover from chars have "sub_space ?r = ?r" by (simp add: sub_space_id)
  moreover have "take 200 ?r = ?r" using sanitize_length by simp
  ultimately have "sanitize_filename ?r = ?r"
    by (simp add: sanitize_filename_def[of ?r])
  with chars sanitize_length show ?thesis by blast
qed

theorem sanitize_filename_idempotent_witness:
  "sanitize_filename (sanitize_filename (S ''a  b:c?'')) = S ''a_bc''
   \<and> sanitize_filename (S ''a  b:c?'') = S ''a_bc''
   \<and> length (sanitize_filename (S ''a  b:c?'')) = 4"
proof -
  have e: "sanitize_filename (S ''a  b:c?'') = S ''a_bc''"
    by (simp add: sanitize_filename_def is_stripped_def isspace_def)
  have i: "sanitize_filename (sanitize_filename (S ''a  b:c?'')) = sanitize_filename (S ''a  b:c?'')"
    using sanitize_filename_idempotent[of "S ''a  b:c?''"] by blast
  from i e show ?thesis by simp
qed

section \<open>The derived file name\<close>

lemma eml_filename_str:
  assumes "\<forall>v. map_of hdrs (S ''X-CCC-HASH'') = Some v \<longrightarrow> (\<exists>s. v = PyStr s)"
    and "\<forall>v. map_of hdrs (S ''Subject'') = Some v \<longrightarrow> (\<exists>s. v = PyStr s)"
  shows "eml_filename str_of hdrs i = Inr (
      (let hash = (case map_of hdrs (S ''X-CCC-HASH'') of Some (PyStr s) \<Rightarrow> s | _ \<Rightarrow> []);
           subject = (case map_of hdrs (S ''Subject'') of Some (PyStr s) \<Rightarrow> s | _ \<Rightarrow> [])
       in if hash \<noteq> [] then hash
          else if sanitize_filename subject \<noteq> [] then sanitize_filename subject
          else S ''email_'' @ str_nat (i + 1)) @ S ''.eml'')"
proof -
  have sb: "subject_base hdrs = Inr (PyStr (sanitize_filename
      (case map_of hdrs (S ''Subject'') of Some (PyStr s) \<Rightarrow> s | _ \<Rightarrow> [])))"
  proof (cases "map_of hdrs (S ''Subject'')")
    case None
    then show ?thesis by (simp add: subject_base_def sanitize_filename_def)
  next
    case (Some v)
    with assms(2) obtain s where "v = PyStr s" by blast
    with Some show ?thesis by (simp add: subject_base_def sanitize_filename_def)
  qed
  show ?thesis
  proof (cases "map_of hdrs (S ''X-CCC-HASH'')")
    case None
    then show ?thesis
      by (simp add: eml_filename_def filename_base_def sb py_format_def Let_def)
  next
    case (Some v)
    with assms(1) obtain s where "v = PyStr s" by blast
    with Some show ?thesis
      by (simp add: eml_filename_def filename_base_def sb py_format_def Let_def)
  qed
qed

text \<open>
  C2, as the code has it.  When the values of \<open>X-CCC-HASH\<close> and \<open>Subject\<close>, where
  present, are strings, the file name is the hash if it is present and not empty;
  otherwise the sanitized subject if that is not empty; otherwise \<open>email_\<close> and the
  index plus one; always followed by \<open>.eml\<close>.  Sanitizing strips only the characters
  \<open>\ / * ? : " < > |\<close>, so \<open>Hello World!!\<close> gives \<open>Hello_World!!.eml\<close>, and a subject
  that sanitizes to nothing, such as \<open>???\<close>, falls back to the index.
\<close>

theorem eml_filename_precedence:
  assumes "\<forall>v. map_of hdrs (S ''X-CCC-HASH'') = Some v \<longrightarrow> (\<exists>s. v = PyStr s)"
    and "\<forall>v. map_of hdrs (S ''Subject'') = Some v \<longrightarrow> (\<exists>s. v = PyStr s)"
  shows "eml_filename str_of hdrs i = Inr (
      (let hash = (case map_of hdrs (S ''X-CCC-HASH'') of Some (PyStr s) \<Rightarrow> s | _ \<Rightarrow> []);
           subject = (case map_of hdrs (S ''Subject'') of Some (PyStr s) \<Rightarrow> s | _ \<Rightarrow> [])
       in if hash \<noteq> [] then hash
          else if sanitize_filename subject \<noteq> [] then sanitize_filename subject
          else S ''email_'' @ str_nat (i + 1)) @ S ''.eml'')"
  using assms by (rule eml_filename_str)

theorem eml_filename_precedence_witness:
  "eml_filename (\<lambda>_. []) [(S ''X-CCC-HASH'', PyStr (S ''abc123'')),
       (S ''Subject'', PyStr (S ''Hello World''))] 0 = Inr (S ''abc123.eml'')
   \<and> eml_filename (\<lambda>_. []) [(S ''Subject'', PyStr (S ''Hello World!!''))] 0
     = Inr (S ''Hello_World!!.eml'')
   \<and> eml_filename (\<lambda>_. []) [(S ''Subject'', PyStr (S ''???''))] 0 = Inr (S ''email_1.eml'')
   \<and> eml_filename (\<lambda>_. []) [] 4 = Inr (S ''email_5.eml'')"
proof -
  have a: "eml_filename (\<lambda>_. []) [(S ''X-CCC-HASH'', PyStr (S ''abc123'')),
       (S ''Subject'', PyStr (S ''Hello World''))] 0 = Inr (S ''abc123.eml'')"
    using eml_filename_precedence[of "[(S ''X-CCC-HASH'', PyStr (S ''abc123'')),
       (S ''Subject'', PyStr (S ''Hello World''))]" "\<lambda>_. []" 0]
    by simp
  have b: "eml_filename (\<lambda>_. []) [(S ''Subject'', PyStr (S ''Hello World!!''))] 0
      = Inr (S ''Hello_World!!.eml'')"
    using eml_filename_precedence[of "[(S ''Subject'', PyStr (S ''Hello World!!''))]" "\<lambda>_. []" 0]
    by (simp add: sanitize_filename_def is_stripped_def isspace_def)
  have c: "eml_filename (\<lambda>_. []) [(S ''Subject'', PyStr (S ''???''))] 0 = Inr (S ''email_1.eml'')"
    using eml_filename_precedence[of "[(S ''Subject'', PyStr (S ''???''))]" "\<lambda>_. []" 0]
    by (simp add: sanitize_filename_def is_stripped_def isspace_def str_nat.simps)
  have d: "eml_filename (\<lambda>_. []) [] 4 = Inr (S ''email_5.eml'')"
    using eml_filename_precedence[of "[]" "\<lambda>_. []" 4]
    by (simp add: sanitize_filename_def str_nat.simps)
  from a b c d show ?thesis by blast
qed

text \<open>
  The claim's example fails: for a record with only \<open>Subject: Hello World!!\<close> the file
  name is \<open>Hello_World!!.eml\<close>, not \<open>Hello_World.eml\<close>.
\<close>

theorem eml_filename_punctuation_counterexample:
  "eml_filename (\<lambda>_. []) [(S ''Subject'', PyStr (S ''Hello World!!''))] 0
     = Inr (S ''Hello_World!!.eml'')
   \<and> eml_filename (\<lambda>_. []) [(S ''Subject'', PyStr (S ''Hello World!!''))] 0
     \<noteq> Inr (S ''Hello_World.eml'')"
  by (simp add: eml_filename_def filename_base_def subject_base_def sanitize_filename_def
      is_stripped_def isspace_def py_format_def)

section \<open>Skipped elements\<close>

lemma warning_lines:
  "is_warning (not_dict_warning i)"
  "is_warning (headers_warning i)"
  "\<not> is_warning (S ''Successfully created '' @ x)"
  "\<not> is_warning (S ''Found '' @ x)"
  "\<not> is_warning (S ''Created output directory: '' @ x)"
  "\<not> is_warning ([10] @ S ''Conversion complete. '' @ x)"
  by (simp_all add: is_warning_def not_dict_warning_def headers_warning_def)

lemma print_line_ok:
  "print_stdout w msg = Printed \<Longrightarrow> print_line w msg st = Inr (st\<lparr>stdout := stdout st @ [msg]\<rparr>)"
  by (simp add: print_line_def)

lemma derive_skipped:
  assumes "is_skipped r"
  shows "derive_eml str_of out i r
     = Inr (case r of PyDict d \<Rightarrow> HeadersNotAnObject | _ \<Rightarrow> NotAnObject)"
proof (cases r)
  case (PyDict d)
  with assms show ?thesis
    by (cases "dict_get d (S ''headers'') (PyDict [])")
       (simp_all add: is_skipped_def derive_eml_def)
qed (simp_all add: derive_eml_def)

lemma record_filename:
  assumes "list_all (\<lambda>kv. case snd kv of PyStr s \<Rightarrow> True | _ \<Rightarrow> False) hdrs"
  shows "\<exists>name. eml_filename str_of hdrs i = Inr name"
proof -
  have "\<exists>s. v = PyStr s" if "map_of hdrs k = Some v" for k v
  proof -
    from that have "(k, v) \<in> set hdrs" by (rule map_of_SomeD)
    with assms have "case v of PyStr s \<Rightarrow> True | _ \<Rightarrow> False"
      by (auto simp: list_all_iff)
    then show ?thesis by (cases v) simp_all
  qed
  then show ?thesis using eml_filename_str[of hdrs str_of i] by blast
qed

lemma derive_record:
  assumes "is_email_record r"
  shows "\<exists>path content. derive_eml str_of out i r = Inr (EmlFile path content)"
proof -
  from assms obtain d hdrs where r: "r = PyDict d"
    and h: "dict_get d (S ''headers'') (PyDict []) = PyDict hdrs"
    and s: "list_all (\<lambda>kv. case snd kv of PyStr s \<Rightarrow> True | _ \<Rightarrow> False) hdrs"
    by (auto simp: is_email_record_def split: pyval.splits)
  from record_filename[OF s] obtain name where n: "eml_filename str_of hdrs i = Inr name" by blast
  show ?thesis using h n by (simp add: derive_eml_def r Let_def)
qed

lemma record_not_skipped: "is_email_record r \<Longrightarrow> \<not> is_skipped r"
  by (auto simp: is_email_record_def is_skipped_def split: pyval.splits)

lemma export_skipped:
  assumes "is_skipped r" and "\<forall>msg. print_stdout w msg = Printed"
  shows "export_item str_of w out st (i, r)
     = Inr (st\<lparr>stdout := stdout st
           @ [case r of PyDict d \<Rightarrow> headers_warning i | _ \<Rightarrow> not_dict_warning i]\<rparr>)"
proof -
  have "export_item str_of w out st (i, r)
      = (case (case r of PyDict d \<Rightarrow> HeadersNotAnObject | _ \<Rightarrow> NotAnObject) of
           NotAnObject \<Rightarrow> print_line w (not_dict_warning i) st
         | HeadersNotAnObject \<Rightarrow> print_line w (headers_warning i) st
         | EmlFile p c \<Rightarrow> write_eml w st p c)"
    by (simp add: export_item_def derive_skipped[OF assms(1)])
  also have "\<dots> = Inr (st\<lparr>stdout := stdout st
           @ [case r of PyDict d \<Rightarrow> headers_warning i | _ \<Rightarrow> not_dict_warning i]\<rparr>)"
    using assms(2) by (cases r) (simp_all add: print_line_ok)
  finally show ?thesis .
qed

lemma export_file:
  assumes "derive_eml str_of out i r = Inr (EmlFile path content)"
    and "\<forall>p c. write_file w p c = Written" and "\<forall>msg. print_stdout w msg = Printed"
  shows "export_item str_of w out st (i, r)
      = Inr (st\<lparr>written := written st @ [(path, content)],
                stdout := stdout st @ [S ''Successfully created '' @ quoted path]\<rparr>)"
  using assms by (simp add: export_item_def write_eml_def Let_def)

lemma export_loop:
  assumes "\<forall>r\<in>set items. is_skipped r \<or> is_email_record r"
    and "\<forall>p c. write_file w p c = Written" and "\<forall>msg. print_stdout w msg = Printed"
  shows "\<exists>st'. for_each (export_item str_of w out) st (enumerate n items) = Inr st'
     \<and> written st' = written st @ List.map_filter (\<lambda>(i, r).
           case derive_eml str_of out i r of Inr (EmlFile p c) \<Rightarrow> Some (p, c) | _ \<Rightarrow> None)
         (enumerate n items)
     \<and> filter is_warning (stdout st') = filter is_warning (stdout st) @ concat (map (\<lambda>(i, r).
           if is_skipped r
           then [case r of PyDict d \<Rightarrow> headers_warning i | _ \<Rightarrow> not_dict_warning i] else [])
         (enumerate n items))"
  using assms(1)
proof (induction items arbitrary: st n)
  case Nil
  then show ?case by (simp add: map_filter_simps)
next
  case (Cons r items)
  from Cons.prems have rest: "\<forall>r\<in>set items. is_skipped r \<or> is_email_record r" by simp
  show ?case
  proof (cases "is_skipped r")
    case True
    let ?msg = "case r of PyDict d \<Rightarrow> headers_warning n | _ \<Rightarrow> not_dict_warning n"
    let ?st1 = "st\<lparr>stdout := stdout st @ [?msg]\<rparr>"
    have e: "export_item str_of w out st (n, r) = Inr ?st1"
      using True assms(3) by (rule export_skipped)
    have m: "is_warning ?msg" by (cases r) (simp_all add: warning_lines)
    have d: "derive_eml str_of out n r
        = Inr (case r of PyDict d \<Rightarrow> HeadersNotAnObject | _ \<Rightarrow> NotAnObject)"
      using True by (rule derive_skipped)
    have f: "(case derive_eml str_of out n r of Inr (EmlFile p c) \<Rightarrow> Some (p, c) | _ \<Rightarrow> None) = None"
      unfolding d by (cases r) simp_all
    from Cons.IH[OF rest, of ?st1 "Suc n"] obtain st'
      where "for_each (export_item str_of w out) ?st1 (enumerate (Suc n) items) = Inr st'"
        and "written st' = written ?st1 @ List.map_filter (\<lambda>(i, r).
           case derive_eml str_of out i r of Inr (EmlFile p c) \<Rightarrow> Some (p, c) | _ \<Rightarrow> None)
         (enumerate (Suc n) items)"
        and "filter is_warning (stdout st') = filter is_warning (stdout ?st1) @ concat (map (\<lambda>(i, r).
           if is_skipped r
           then [case r of PyDict d \<Rightarrow> headers_warning i | _ \<Rightarrow> not_dict_warning i] else [])
         (enumerate (Suc n) items))"
      by blast
    with e m f True show ?thesis by (simp add: map_filter_simps)
  next
    case False
    with Cons.prems have "is_email_record r" by simp
    from derive_record[OF this] obtain path content
      where d: "derive_eml str_of out n r = Inr (EmlFile path content)" by blast
    let ?st1 = "st\<lparr>written := written st @ [(path, content)],
                stdout := stdout st @ [S ''Successfully created '' @ quoted path]\<rparr>"
    have e: "export_item str_of w out st (n, r) = Inr ?st1"
      using d assms(2,3) by (rule export_file)
    have m: "\<not> is_warning (S ''Successfully created '' @ quoted path)" by (rule warning_lines(3))
    from Cons.IH[OF rest, of ?st1 "Suc n"] obtain st'
      where "for_each (export_item str_of w out) ?st1 (enumerate (Suc n) items) = Inr st'"
        and "written st' = written ?st1 @ List.map_filter (\<lambda>(i, r).
           case derive_eml str_of out i r of Inr (EmlFile p c) \<Rightarrow> Some (p, c) | _ \<Rightarrow> None)
         (enumerate (Suc n) items)"
        and "filter is_warning (stdout st') = filter is_warning (stdout ?st1) @ concat (map (\<lambda>(i, r).
           if is_skipped r
           then [case r of PyDict d \<Rightarrow> headers_warning i | _ \<Rightarrow> not_dict_warning i] else [])
         (enumerate (Suc n) items))"
      by blast
    with e m d False show ?thesis by (simp add: map_filter_simps)
  qed
qed

lemma records_files:
  assumes "\<forall>r\<in>set xs. is_email_record r"
  shows "length (List.map_filter (\<lambda>(i, r).
           case derive_eml str_of out i r of Inr (EmlFile p c) \<Rightarrow> Some (p, c) | _ \<Rightarrow> None)
         (enumerate n xs)) = length xs"
  using assms
proof (induction xs arbitrary: n)
  case Nil
  then show ?case by (simp add: map_filter_simps)
next
  case (Cons r xs)
  from Cons.prems have "is_email_record r" by simp
  from derive_record[OF this] obtain path content
    where "derive_eml str_of out n r = Inr (EmlFile path content)" by blast
  with Cons show ?case by (simp add: map_filter_simps)
qed

lemma records_warnings:
  assumes "\<forall>r\<in>set xs. is_email_record r"
  shows "concat (map (\<lambda>(i, r).
           if is_skipped r
           then [case r of PyDict d \<Rightarrow> headers_warning i | _ \<Rightarrow> not_dict_warning i] else [])
         (enumerate n xs)) = []"
  using assms by (induction xs arbitrary: n) (simp_all add: record_not_skipped)

lemma ensure_dir_ok:
  assumes "path_exists w out \<or> makedirs w out = DirCreated"
    and "\<forall>msg. print_stdout w msg = Printed"
  shows "\<exists>st1. ensure_dir w out st = Inr (True, st1) \<and> written st1 = written st
     \<and> filter is_warning (stdout st1) = filter is_warning (stdout st)"
proof (cases "path_exists w out")
  case True
  then show ?thesis by (simp add: ensure_dir_def)
next
  case False
  with assms have "makedirs w out = DirCreated" by simp
  with False assms(2) have "ensure_dir w out st
      = Inr (True, st\<lparr>stdout := stdout st @ [S ''Created output directory: '' @ quoted out]\<rparr>)"
    by (simp add: ensure_dir_def)
  then show ?thesis using warning_lines(5)[of "quoted out"] by simp
qed

lemma map_filter_append: "List.map_filter f (xs @ ys) = List.map_filter f xs @ List.map_filter f ys"
  by (simp add: map_filter_def)

lemma enumerate_append: "enumerate n (xs @ ys) = enumerate n xs @ enumerate (n + length xs) ys"
  by (induction xs arbitrary: n) simp_all

lemma derive_record_file:
  assumes "is_email_record r"
  shows "\<exists>d hdrs name. r = PyDict d
     \<and> dict_get d (S ''headers'') (PyDict []) = PyDict hdrs
     \<and> eml_filename str_of hdrs i = Inr name
     \<and> derive_eml str_of out i r = Inr (EmlFile (path_join out name)
          (concat (map (header_text str_of) hdrs) @ [10]
             @ py_format str_of (dict_get d (S ''body'') (PyStr []))))"
proof -
  from assms obtain d hdrs where r: "r = PyDict d"
    and h: "dict_get d (S ''headers'') (PyDict []) = PyDict hdrs"
    and s: "list_all (\<lambda>kv. case snd kv of PyStr s \<Rightarrow> True | _ \<Rightarrow> False) hdrs"
    by (auto simp: is_email_record_def split: pyval.splits)
  from record_filename[OF s] obtain name where n: "eml_filename str_of hdrs i = Inr name" by blast
  have "derive_eml str_of out i r = Inr (EmlFile (path_join out name)
          (concat (map (header_text str_of) hdrs) @ [10]
             @ py_format str_of (dict_get d (S ''body'') (PyStr []))))"
    using h n by (simp add: derive_eml_def r Let_def)
  with r h n show ?thesis by blast
qed

lemma graceful_skip:
  assumes load: "load_json w json_file_path = Loaded (PyList (pre @ [bad] @ post))"
    and dir: "path_exists w output_dir \<or> makedirs w output_dir = DirCreated"
    and wr: "\<forall>p c. write_file w p c = Written"
    and pr: "\<forall>msg. print_stdout w msg = Printed"
    and bad: "is_skipped bad"
    and recs: "\<forall>r\<in>set (pre @ post). is_email_record r"
  shows "\<exists>st. convert_json_to_eml str_of w json_file_path output_dir = Inr st
      \<and> written st = List.map_filter (\<lambda>(i, r).
            case derive_eml str_of output_dir i r of Inr (EmlFile p c) \<Rightarrow> Some (p, c) | _ \<Rightarrow> None)
          (enumerate 0 pre @ enumerate (Suc (length pre)) post)
      \<and> length (written st) = length pre + length post
      \<and> filter is_warning (stdout st)
          = [case bad of PyDict d \<Rightarrow> headers_warning (length pre)
             | _ \<Rightarrow> not_dict_warning (length pre)]
      \<and> (card (fst ` set (written st)) = length pre + length post
           \<longleftrightarrow> distinct (map fst (written st)))"
proof -
  let ?items = "pre @ [bad] @ post"
  let ?F = "\<lambda>(i, r). case derive_eml str_of output_dir i r of
      Inr (EmlFile p c) \<Rightarrow> Some (p, c) | _ \<Rightarrow> None"
  let ?G = "\<lambda>(i, r). if is_skipped r
           then [case r of PyDict d \<Rightarrow> headers_warning i | _ \<Rightarrow> not_dict_warning i] else []"
  let ?st0 = "\<lparr>stdout = [], written = []\<rparr>"
  from ensure_dir_ok[OF dir pr, of ?st0] obtain st1
    where d1: "ensure_dir w output_dir ?st0 = Inr (True, st1)"
      and w1: "written st1 = []" and o1: "filter is_warning (stdout st1) = []"
    by auto
  let ?found = "S ''Found '' @ str_nat (length ?items) @ S '' emails in ''
      @ quoted json_file_path @ S ''. Starting conversion...''"
  let ?st2 = "st1\<lparr>stdout := stdout st1 @ [?found]\<rparr>"
  have p2: "print_line w ?found st1 = Inr ?st2" using pr by (simp add: print_line_ok)
  have nf: "\<not> is_warning ?found" by (rule warning_lines(4))
  have all: "\<forall>r\<in>set ?items. is_skipped r \<or> is_email_record r"
    using bad recs by auto
  from export_loop[OF all wr pr, of str_of output_dir ?st2 0] obtain st3
    where l3: "for_each (export_item str_of w output_dir) ?st2 (enumerate 0 ?items) = Inr st3"
      and w3: "written st3 = written ?st2 @ List.map_filter ?F (enumerate 0 ?items)"
      and o3: "filter is_warning (stdout st3)
          = filter is_warning (stdout ?st2) @ concat (map ?G (enumerate 0 ?items))"
    by blast
  let ?done = "[10] @ S ''Conversion complete. '' @ str_nat (length ?items)
      @ S '' .eml files generated in '' @ quoted output_dir @ S ''.''"
  let ?st4 = "st3\<lparr>stdout := stdout st3 @ [?done]\<rparr>"
  have p4: "print_line w ?done st3 = Inr ?st4" using pr by (simp add: print_line_ok)
  have nd: "\<not> is_warning ?done" by (rule warning_lines(6))
  have run: "convert_json_to_eml str_of w json_file_path output_dir = Inr ?st4"
    unfolding convert_json_to_eml_def Let_def load using d1 p2 l3 p4 by simp
  have pre: "\<forall>r\<in>set pre. is_email_record r" and post: "\<forall>r\<in>set post. is_email_record r"
    using recs by auto
  have en: "enumerate 0 (pre @ bad # post)
      = enumerate 0 pre @ (length pre, bad) # enumerate (Suc (length pre)) post"
    by (simp add: enumerate_append)
  have fb: "?F (length pre, bad) = None"
    using derive_skipped[OF bad, of str_of output_dir "length pre"] by (cases bad) simp_all
  have wr4: "written ?st4
      = List.map_filter ?F (enumerate 0 pre @ enumerate (Suc (length pre)) post)"
    using w3 w1 fb by (simp add: en map_filter_append map_filter_simps)
  have len: "length (written ?st4) = length pre + length post"
    unfolding wr4 map_filter_append using records_files[OF pre] records_files[OF post] by simp
  have warn: "filter is_warning (stdout ?st4)
      = [case bad of PyDict d \<Rightarrow> headers_warning (length pre)
             | _ \<Rightarrow> not_dict_warning (length pre)]"
    using o3 o1 nf nd bad records_warnings[OF pre] records_warnings[OF post]
    by (simp add: en)
  have "card (fst ` set (written ?st4)) = length (map fst (written ?st4))
      \<longleftrightarrow> distinct (map fst (written ?st4))"
    using distinct_card[of "map fst (written ?st4)"] card_distinct[of "map fst (written ?st4)"]
    by auto
  then have cd: "card (fst ` set (written ?st4)) = length pre + length post
      \<longleftrightarrow> distinct (map fst (written ?st4))"
    using len by simp
  show ?thesis
  proof (rule exI[of _ ?st4], intro conjI)
    show "convert_json_to_eml str_of w json_file_path output_dir = Inr ?st4" by (rule run)
    show "written ?st4 = List.map_filter ?F (enumerate 0 pre @ enumerate (Suc (length pre)) post)"
      by (rule wr4)
    show "length (written ?st4) = length pre + length post" by (rule len)
    show "filter is_warning (stdout ?st4)
      = [case bad of PyDict d \<Rightarrow> headers_warning (length pre)
             | _ \<Rightarrow> not_dict_warning (length pre)]" by (rule warn)
    show "card (fst ` set (written ?st4)) = length pre + length post
      \<longleftrightarrow> distinct (map fst (written ?st4))" by (rule cd)
  qed
qed

lemmas export_defs = convert_json_to_eml_def ensure_dir_def print_line_def export_item_def
  derive_eml_def write_eml_def
  dict_get_def header_text_def py_format_def eml_filename_def filename_base_def
  subject_base_def sanitize_filename_def is_stripped_def isspace_def path_join_def
  startswith_def quoted_def str_nat.simps Let_def enumerate_eq_zip suffix_to_prefix

text \<open>
  C8, as the code has it.  Let the array hold one element that is skipped (it is not an
  object, or its \<open>headers\<close> are not an object) and otherwise \<open>N\<close> records whose headers
  hold strings, let the output directory exist or be created, let every write succeed
  and let standard output take every line that is printed.  Then the run ends without
  an exception.  What it has written, in this order, is for each record the content
  that lines 70 to 86 build, at the path that lines 88 to 99 derive from the record and
  its index in the array: \<open>N\<close> writes, and none for the skipped element.  The warnings
  it has printed are exactly one, the warning of line 60 or of line 67 with the index
  of the skipped element.  The files left are \<open>N\<close> exactly when the derived paths are
  pairwise distinct.
\<close>

theorem skip_and_continue:
  assumes "load_json w json_file_path = Loaded (PyList (pre @ [bad] @ post))"
    and "path_exists w output_dir \<or> makedirs w output_dir = DirCreated"
    and "\<forall>p c. write_file w p c = Written"
    and "\<forall>msg. print_stdout w msg = Printed"
    and "is_skipped bad"
    and "\<forall>r\<in>set (pre @ post). is_email_record r"
  shows "(\<exists>st. convert_json_to_eml str_of w json_file_path output_dir = Inr st
      \<and> written st = List.map_filter (\<lambda>(i, r).
            case derive_eml str_of output_dir i r of Inr (EmlFile p c) \<Rightarrow> Some (p, c) | _ \<Rightarrow> None)
          (enumerate 0 pre @ enumerate (Suc (length pre)) post)
      \<and> length (written st) = length pre + length post
      \<and> filter is_warning (stdout st)
          = [case bad of PyDict d \<Rightarrow> headers_warning (length pre)
             | _ \<Rightarrow> not_dict_warning (length pre)]
      \<and> (card (fst ` set (written st)) = length pre + length post
           \<longleftrightarrow> distinct (map fst (written st))))
    \<and> (\<forall>(i, r)\<in>set (enumerate 0 pre @ enumerate (Suc (length pre)) post).
         \<exists>d hdrs name. r = PyDict d
           \<and> dict_get d (S ''headers'') (PyDict []) = PyDict hdrs
           \<and> eml_filename str_of hdrs i = Inr name
           \<and> derive_eml str_of output_dir i r = Inr (EmlFile (path_join output_dir name)
                (concat (map (header_text str_of) hdrs) @ [10]
                   @ py_format str_of (dict_get d (S ''body'') (PyStr [])))))"
proof (rule conjI)
  show "\<exists>st. convert_json_to_eml str_of w json_file_path output_dir = Inr st
      \<and> written st = List.map_filter (\<lambda>(i, r).
            case derive_eml str_of output_dir i r of Inr (EmlFile p c) \<Rightarrow> Some (p, c) | _ \<Rightarrow> None)
          (enumerate 0 pre @ enumerate (Suc (length pre)) post)
      \<and> length (written st) = length pre + length post
      \<and> filter is_warning (stdout st)
          = [case bad of PyDict d \<Rightarrow> headers_warning (length pre)
             | _ \<Rightarrow> not_dict_warning (length pre)]
      \<and> (card (fst ` set (written st)) = length pre + length post
           \<longleftrightarrow> distinct (map fst (written st)))"
    using assms by (rule graceful_skip)
next
  show "\<forall>(i, r)\<in>set (enumerate 0 pre @ enumerate (Suc (length pre)) post).
         \<exists>d hdrs name. r = PyDict d
           \<and> dict_get d (S ''headers'') (PyDict []) = PyDict hdrs
           \<and> eml_filename str_of hdrs i = Inr name
           \<and> derive_eml str_of output_dir i r = Inr (EmlFile (path_join output_dir name)
                (concat (map (header_text str_of) hdrs) @ [10]
                   @ py_format str_of (dict_get d (S ''body'') (PyStr []))))"
  proof (intro ballI, clarify)
    fix i r
    assume "(i, r) \<in> set (enumerate 0 pre @ enumerate (Suc (length pre)) post)"
    then have "r \<in> set (pre @ post)"
      by (auto simp: in_set_enumerate_eq)
    with assms(6) have "is_email_record r" by blast
    then show "\<exists>d hdrs name. r = PyDict d
           \<and> dict_get d (S ''headers'') (PyDict []) = PyDict hdrs
           \<and> eml_filename str_of hdrs i = Inr name
           \<and> derive_eml str_of output_dir i r = Inr (EmlFile (path_join output_dir name)
                (concat (map (header_text str_of) hdrs) @ [10]
                   @ py_format str_of (dict_get d (S ''body'') (PyStr []))))"
      by (rule derive_record_file)
  qed
qed

text \<open>
  One number and two records with the subjects \<open>Hi\<close> and \<open>Yo\<close>: two files, one warning.
\<close>

theorem skip_and_continue_witness:
  "\<exists>st. convert_json_to_eml (\<lambda>_. [])
       \<lparr>load_json = (\<lambda>_. Loaded (PyList [PyInt 42,
            PyDict [(S ''headers'', PyDict [(S ''Subject'', PyStr (S ''Hi''))]),
                    (S ''body'', PyStr (S ''a''))],
            PyDict [(S ''headers'', PyDict [(S ''Subject'', PyStr (S ''Yo''))]),
                    (S ''body'', PyStr (S ''b''))]])),
         path_exists = (\<lambda>_. True), makedirs = (\<lambda>_. DirCreated),
         write_file = (\<lambda>_ _. Written), print_stdout = (\<lambda>_. Printed)\<rparr>
       (S ''emails.json'') (S ''eml_files'') = Inr st
     \<and> written st = [(S ''eml_files/Hi.eml'', S ''Subject: Hi'' @ [10, 10] @ S ''a''),
                      (S ''eml_files/Yo.eml'', S ''Subject: Yo'' @ [10, 10] @ S ''b'')]
     \<and> filter is_warning (stdout st)
        = [S ''Warning: Skipping item at index 0 as it'' @ [39]
             @ S ''s not a dictionary (email object).'']"
proof -
  let ?r1 = "PyDict [(S ''headers'', PyDict [(S ''Subject'', PyStr (S ''Hi''))]),
                    (S ''body'', PyStr (S ''a''))]"
  let ?r2 = "PyDict [(S ''headers'', PyDict [(S ''Subject'', PyStr (S ''Yo''))]),
                    (S ''body'', PyStr (S ''b''))]"
  let ?w = "\<lparr>load_json = (\<lambda>_. Loaded (PyList [PyInt 42, ?r1, ?r2])),
         path_exists = (\<lambda>_. True), makedirs = (\<lambda>_. DirCreated),
         write_file = (\<lambda>_ _. Written), print_stdout = (\<lambda>_. Printed)\<rparr>"
  have h1: "load_json ?w (S ''emails.json'') = Loaded (PyList ([] @ [PyInt 42] @ [?r1, ?r2]))"
    by simp
  have h2: "path_exists ?w (S ''eml_files'') \<or> makedirs ?w (S ''eml_files'') = DirCreated"
    by simp
  have h3: "\<forall>p c. write_file ?w p c = Written" by simp
  have h4: "\<forall>msg. print_stdout ?w msg = Printed" by simp
  have h5: "is_skipped (PyInt 42)" by (simp add: is_skipped_def)
  have h6: "\<forall>r\<in>set ([] @ [?r1, ?r2]). is_email_record r"
    by (simp add: is_email_record_def dict_get_def)
  have f: "List.map_filter (\<lambda>(i, r).
            case derive_eml (\<lambda>_. []) (S ''eml_files'') i r of
              Inr (EmlFile p c) \<Rightarrow> Some (p, c) | _ \<Rightarrow> None)
          (enumerate 0 [] @ enumerate (Suc (length ([]::pyval list))) [?r1, ?r2])
      = [(S ''eml_files/Hi.eml'', S ''Subject: Hi'' @ [10, 10] @ S ''a''),
         (S ''eml_files/Yo.eml'', S ''Subject: Yo'' @ [10, 10] @ S ''b'')]"
    by (simp add: map_filter_simps export_defs)
  have g: "not_dict_warning 0 = S ''Warning: Skipping item at index 0 as it'' @ [39]
             @ S ''s not a dictionary (email object).''"
    by (simp add: not_dict_warning_def str_nat.simps)
  from skip_and_continue[OF h1 h2 h3 h4 h5 h6, of "\<lambda>_. []"] f g show ?thesis
    by auto
qed

text \<open>
  The claim's count of files fails when two records derive the same name: with one
  number and two records whose subject is \<open>Hi\<close>, both writes go to
  \<open>eml_files/Hi.eml\<close>, and one file is left, holding the second record.  And the run
  does not go on to completion when standard output refuses a line: with an output that
  encodes ASCII only, the report on the file of a record whose subject is \<open>U+00E9\<close>
  raises \<open>UnicodeEncodeError\<close> inside the \<open>try\<close> of line 101, the handler of line 107
  prints the same path and raises again, and the exception leaves
  \<open>convert_json_to_eml\<close> before the third element is looked at.
\<close>

theorem same_filename_counterexample:
  "(\<exists>st. convert_json_to_eml (\<lambda>_. [])
       \<lparr>load_json = (\<lambda>_. Loaded (PyList [PyInt 42,
            PyDict [(S ''headers'', PyDict [(S ''Subject'', PyStr (S ''Hi''))]),
                    (S ''body'', PyStr (S ''a''))],
            PyDict [(S ''headers'', PyDict [(S ''Subject'', PyStr (S ''Hi''))]),
                    (S ''body'', PyStr (S ''b''))]])),
         path_exists = (\<lambda>_. True), makedirs = (\<lambda>_. DirCreated),
         write_file = (\<lambda>_ _. Written), print_stdout = (\<lambda>_. Printed)\<rparr>
       (S ''emails.json'') (S ''eml_files'') = Inr st
     \<and> written st = [(S ''eml_files/Hi.eml'', S ''Subject: Hi'' @ [10, 10] @ S ''a''),
                      (S ''eml_files/Hi.eml'', S ''Subject: Hi'' @ [10, 10] @ S ''b'')]
     \<and> card (fst ` set (written st)) = 1)
   \<and> convert_json_to_eml (\<lambda>_. [])
       \<lparr>load_json = (\<lambda>_. Loaded (PyList [PyInt 42,
            PyDict [(S ''headers'', PyDict [(S ''Subject'', PyStr [233])]),
                    (S ''body'', PyStr (S ''a''))],
            PyDict [(S ''headers'', PyDict [(S ''Subject'', PyStr (S ''Yo''))]),
                    (S ''body'', PyStr (S ''b''))]])),
         path_exists = (\<lambda>_. True), makedirs = (\<lambda>_. DirCreated),
         write_file = (\<lambda>_ _. Written),
         print_stdout = (\<lambda>msg. if list_all (\<lambda>c. c < 128) msg then Printed
                            else PrintRaised UnicodeEncodeError (S ''ascii''))\<rparr>
       (S ''emails.json'') (S ''eml_files'') = Inl UnicodeEncodeError"
  by (simp add: export_defs)

section \<open>Undecodable bytes\<close>

lemma utf8_first_ascii: "b < 128 \<Longrightarrow> utf8_first b bs = Decoded b 1"
  by (simp add: utf8_first_def)

lemma utf8_first_no_start:
  "(128 \<le> b \<and> b < 194) \<or> 245 \<le> b \<Longrightarrow> utf8_first b bs = Invalid 1"
  by (auto simp: utf8_first_def)

lemma utf8_first_Decoded:
  assumes "utf8_first b bs = Decoded c n"
  shows "n - 1 \<le> length bs" and "utf8_first b (take (n - 1) bs @ ys) = Decoded c n"
  using assms
  by (auto simp: utf8_first_def split: if_splits list.splits)

lemma utf8_decode_Ignore_total: "\<exists>s. utf8_decode Ignore bs = Inr s"
proof (induction bs rule: length_induct)
  case (1 bs)
  show ?case
  proof (cases bs)
    case Nil
    then show ?thesis by simp
  next
    case (Cons b r)
    have rest: "\<exists>s. utf8_decode Ignore (drop n r) = Inr s" for n
      using 1 Cons by simp
    show ?thesis
    proof (cases "utf8_first b r")
      case (Decoded c n)
      from rest obtain s where "utf8_decode Ignore (drop (n - 1) r) = Inr s" by blast
      with Decoded Cons show ?thesis by simp
    next
      case (Invalid n)
      from rest obtain s where "utf8_decode Ignore (drop (n - 1) r) = Inr s" by blast
      with Invalid Cons show ?thesis by simp
    qed
  qed
qed

lemma utf8_decode_Strict_Ignore:
  "utf8_decode Strict bs = Inr s \<Longrightarrow> utf8_decode Ignore bs = Inr s"
proof (induction bs arbitrary: s rule: length_induct)
  case (1 bs)
  show ?case
  proof (cases bs)
    case Nil
    with 1 show ?thesis by simp
  next
    case (Cons b r)
    show ?thesis
    proof (cases "utf8_first b r")
      case (Decoded c n)
      with "1.prems" Cons obtain s'
        where s': "utf8_decode Strict (drop (n - 1) r) = Inr s'" and s: "s = c # s'"
        by (cases "utf8_decode Strict (drop (n - 1) r)") auto
      have "length (drop (n - 1) r) < length bs" using Cons by simp
      with "1.IH" s' have "utf8_decode Ignore (drop (n - 1) r) = Inr s'" by blast
      with Decoded Cons s show ?thesis by simp
    next
      case (Invalid n)
      with "1.prems" Cons show ?thesis by simp
    qed
  qed
qed

lemma utf8_decode_Ignore_drops:
  "\<forall>b\<in>set bs. b < 128 \<or> (128 \<le> b \<and> b < 194) \<or> 245 \<le> b \<Longrightarrow>
   utf8_decode Ignore bs = Inr (filter (\<lambda>b. b < 128) bs)"
proof (induction bs)
  case Nil
  then show ?case by simp
next
  case (Cons b bs)
  show ?case
  proof (cases "b < 128")
    case True
    with Cons show ?thesis by (simp add: utf8_first_ascii)
  next
    case False
    with Cons.prems have "(128 \<le> b \<and> b < 194) \<or> 245 \<le> b" by auto
    then have "utf8_first b bs = Invalid 1" by (rule utf8_first_no_start)
    with Cons False show ?thesis by simp
  qed
qed

lemma keep_decodable_drops:
  "\<forall>b\<in>set bs. b < 128 \<or> (128 \<le> b \<and> b < 194) \<or> 245 \<le> b \<Longrightarrow>
   keep_decodable bs = filter (\<lambda>b. b < 128) bs"
proof (induction bs)
  case Nil
  then show ?case by simp
next
  case (Cons b bs)
  show ?case
  proof (cases "b < 128")
    case True
    with Cons show ?thesis by (simp add: utf8_first_ascii)
  next
    case False
    with Cons.prems have "(128 \<le> b \<and> b < 194) \<or> 245 \<le> b" by auto
    then have "utf8_first b bs = Invalid 1" by (rule utf8_first_no_start)
    with Cons False show ?thesis by simp
  qed
qed

lemma decode_kept: "utf8_decode Strict (keep_decodable bs) = utf8_decode Ignore bs"
proof (induction bs rule: length_induct)
  case (1 bs)
  show ?case
  proof (cases bs)
    case Nil
    then show ?thesis by simp
  next
    case (Cons b r)
    have ih: "utf8_decode Strict (keep_decodable (drop n r)) = utf8_decode Ignore (drop n r)" for n
      using 1 Cons by simp
    show ?thesis
    proof (cases "utf8_first b r")
      case (Decoded c n)
      let ?k = "keep_decodable (drop (n - 1) r)"
      have f: "utf8_first b (take (n - 1) r @ ?k) = Decoded c n"
        using Decoded by (rule utf8_first_Decoded(2))
      have l: "n - 1 \<le> length r" using Decoded by (rule utf8_first_Decoded(1))
      then have d: "drop (n - 1) (take (n - 1) r @ ?k) = ?k" by simp
      have "utf8_decode Strict (keep_decodable (b # r))
          = utf8_decode Strict (b # (take (n - 1) r @ ?k))"
        using Decoded by simp
      also have "\<dots> = and_then (utf8_decode Strict ?k) (\<lambda>r. Inr (c # r))"
        using f d by simp
      also have "\<dots> = utf8_decode Ignore (b # r)"
        using Decoded ih[of "n - 1"] by simp
      finally show ?thesis using Cons by simp
    next
      case (Invalid n)
      with ih[of "n - 1"] Cons show ?thesis by simp
    qed
  qed
qed

lemma keep_decodable_subseq: "subseq (keep_decodable bs) bs"
proof (induction bs rule: length_induct)
  case (1 bs)
  show ?case
  proof (cases bs)
    case Nil
    then show ?thesis by simp
  next
    case (Cons b r)
    have ih: "subseq (keep_decodable (drop n r)) (drop n r)" for n
      using 1 Cons by simp
    show ?thesis
    proof (cases "utf8_first b r")
      case (Decoded c n)
      have "subseq (take (n - 1) r @ keep_decodable (drop (n - 1) r))
          (take (n - 1) r @ drop (n - 1) r)"
        using ih[of "n - 1"] by (intro list_emb_append_mono) simp_all
      then have "subseq (b # take (n - 1) r @ keep_decodable (drop (n - 1) r)) (b # r)"
        by simp
      with Decoded Cons show ?thesis by simp
    next
      case (Invalid n)
      have "subseq (drop (n - 1) r) (b # r)"
        by (metis append_take_drop_id list_emb_append2 subseq_Cons' subseq_order.order_refl list_emb_Cons)
      with ih[of "n - 1"] have "subseq (keep_decodable (drop (n - 1) r)) (b # r)"
        by (rule subseq_order.trans)
      with Invalid Cons show ?thesis by simp
    qed
  qed
qed

lemma keep_decodable_valid:
  "utf8_decode Strict bs = Inr s \<Longrightarrow> keep_decodable bs = bs"
proof (induction bs arbitrary: s rule: length_induct)
  case (1 bs)
  show ?case
  proof (cases bs)
    case Nil
    then show ?thesis by simp
  next
    case (Cons b r)
    show ?thesis
    proof (cases "utf8_first b r")
      case (Decoded c n)
      with "1.prems" Cons obtain s'
        where s': "utf8_decode Strict (drop (n - 1) r) = Inr s'"
        by (cases "utf8_decode Strict (drop (n - 1) r)") auto
      have "length (drop (n - 1) r) < length bs" using Cons by simp
      with "1.IH" s' have "keep_decodable (drop (n - 1) r) = drop (n - 1) r" by blast
      with Decoded Cons show ?thesis by simp
    next
      case (Invalid n)
      with "1.prems" Cons show ?thesis by simp
    qed
  qed
qed

lemma utf8_first_replacement:
  assumes "utf8_first b bs = Decoded 65533 n"
  shows "\<exists>r. n = 3 \<and> b = 239 \<and> bs = 191 # 189 # r"
proof -
  have two: False if "b < 224" "\<not> b < 194" "is_cont b2" "(b - 192) * 64 + (b2 - 128) = 65533" for b2
    using that unfolding is_cont_def by linarith
  have three: "b = 239 \<and> b2 = 191 \<and> b3 = 189"
    if "\<not> b < 224" "b < 240" "is_cont b2" "is_cont b3"
      "(b - 224) * 4096 + (b2 - 128) * 64 + (b3 - 128) = 65533" for b2 b3
  proof -
    from that have bounds: "b2 < 192" "128 \<le> b2" "b3 < 192" "128 \<le> b3"
      by (simp_all add: is_cont_def)
    from that(1,2,5) bounds have 1: "b = 239" by linarith
    from that(5) bounds 1 have 2: "b2 = 191" by linarith
    from that(5) bounds 1 2 have "b3 = 189" by linarith
    with 1 2 show ?thesis by simp
  qed
  have four: False
    if "\<not> b < 240" "is_cont b2" "b2 < 144 \<longrightarrow> b \<noteq> 240"
      "(b - 240) * 262144 + (b2 - 128) * 4096 + (b3 - 128) * 64 + (b4 - 128) = 65533" for b2 b3 b4
    using that unfolding is_cont_def by (auto split: if_splits)
  consider "b < 194" | "\<not> b < 194" "b < 224" | "\<not> b < 224" "b < 240"
    | "\<not> b < 240" "b < 245" | "\<not> b < 245"
    by linarith
  then show ?thesis
  proof cases
    case 1
    with assms show ?thesis by (simp add: utf8_first_def split: if_splits)
  next
    case 2
    with assms obtain b2 where "is_cont b2" "(b - 192) * 64 + (b2 - 128) = 65533"
      by (simp add: utf8_first_def split: list.splits if_splits)
    with 2 two show ?thesis by blast
  next
    case 3
    with assms obtain b2 b3 r where bs: "bs = b2 # b3 # r" and n: "n = 3"
      and c: "is_cont b2" "is_cont b3"
        "(b - 224) * 4096 + (b2 - 128) * 64 + (b3 - 128) = 65533"
      by (simp add: utf8_first_def split: list.splits if_splits)
    from three[OF 3 c] bs n show ?thesis by simp
  next
    case 4
    with assms obtain b2 b3 b4 where "is_cont b2" "b2 < 144 \<longrightarrow> b \<noteq> 240"
      "(b - 240) * 262144 + (b2 - 128) * 4096 + (b3 - 128) * 64 + (b4 - 128) = 65533"
      by (auto simp: utf8_first_def split: list.splits if_splits)
    with 4 four show ?thesis by blast
  next
    case 5
    with assms show ?thesis by (simp add: utf8_first_def)
  qed
qed

lemma universal_newlines_set: "set (universal_newlines s) \<subseteq> insert 10 (set s)"
  by (induction s rule: universal_newlines.induct) auto

lemma decoded_replacement:
  "utf8_decode h bs = Inr s \<Longrightarrow> h \<noteq> Replace \<Longrightarrow> 65533 \<in> set s
     \<Longrightarrow> \<exists>xs ys. bs = xs @ [239, 191, 189] @ ys"
proof (induction bs arbitrary: s rule: length_induct)
  case (1 bs)
  show ?case
  proof (cases bs)
    case Nil
    with "1.prems" show ?thesis by simp
  next
    case (Cons b r)
    have ih: "\<exists>xs ys. drop n r = xs @ [239, 191, 189] @ ys"
      if "utf8_decode h (drop n r) = Inr s'" "65533 \<in> set s'" for n s'
      using "1.IH" that "1.prems"(2) Cons by simp
    have later: "\<exists>xs ys. bs = xs @ [239, 191, 189] @ ys"
      if "\<exists>xs ys. drop n r = xs @ [239, 191, 189] @ ys" for n
    proof -
      from that obtain xs ys where "drop n r = xs @ [239, 191, 189] @ ys" by blast
      then have "bs = (b # take n r @ xs) @ [239, 191, 189] @ ys"
        using Cons by (metis append_Cons append_assoc append_take_drop_id)
      then show ?thesis by blast
    qed
    show ?thesis
    proof (cases "utf8_first b r")
      case (Decoded c n)
      with "1.prems" Cons obtain s'
        where s': "utf8_decode h (drop (n - 1) r) = Inr s'" and s: "s = c # s'"
        by (cases "utf8_decode h (drop (n - 1) r)") auto
      show ?thesis
      proof (cases "c = 65533")
        case True
        with Decoded obtain r' where "b = 239" "r = 191 # 189 # r'"
          using utf8_first_replacement[of b r n] by blast
        with Cons have "bs = [] @ [239, 191, 189] @ r'" by simp
        then show ?thesis by blast
      next
        case False
        with s "1.prems"(3) have "65533 \<in> set s'" by simp
        with s' show ?thesis by (intro later ih)
      qed
    next
      case (Invalid n)
      with "1.prems" Cons have "utf8_decode h (drop (n - 1) r) = Inr s"
        by (cases h) simp_all
      with "1.prems"(3) show ?thesis by (intro later ih)
    qed
  qed
qed

lemma read_replacement:
  assumes "read_mbox_content file_bytes = Inr s" and "65533 \<in> set s"
  shows "\<exists>xs ys. file_bytes = xs @ [239, 191, 189] @ ys"
proof -
  from assms(1) obtain t where t: "utf8_decode Ignore file_bytes = Inr t"
    and s: "s = universal_newlines t"
    by (cases "utf8_decode Ignore file_bytes") (auto simp: read_mbox_content_def)
  from assms(2) s universal_newlines_set[of t] have "65533 \<in> set t" by auto
  with t show ?thesis by (intro decoded_replacement[of Ignore]) simp_all
qed

text \<open>
  C3, as the code has it.  Reading the mbox file never fails, and what is read is the
  text that the bytes of the file encode once every range that cannot be decoded is
  left out: the bytes kept are a subsequence of the file, they are valid UTF-8, and the
  text is their decoding (with \<open>\r\n\<close> and \<open>\r\<close> read as \<open>\n\<close>).  Nothing is put in
  the place of what is left out: a replacement character \<open>U+FFFD\<close> stands in the text
  only where the file holds its three bytes.  A file that is valid UTF-8 is kept whole,
  and in a file of ASCII text and bytes that can never begin a character, what is
  kept is the ASCII text alone.
\<close>

theorem read_mbox_content_ignores:
  "(\<exists>s. utf8_decode Strict (keep_decodable file_bytes) = Inr s
        \<and> read_mbox_content file_bytes = Inr (universal_newlines s))
   \<and> subseq (keep_decodable file_bytes) file_bytes
   \<and> (\<forall>s. read_mbox_content file_bytes = Inr s \<and> 65533 \<in> set s
         \<longrightarrow> (\<exists>xs ys. file_bytes = xs @ [239, 191, 189] @ ys))
   \<and> (\<forall>s. utf8_decode Strict file_bytes = Inr s
         \<longrightarrow> keep_decodable file_bytes = file_bytes
           \<and> read_mbox_content file_bytes = Inr (universal_newlines s))
   \<and> ((\<forall>b\<in>set file_bytes. b < 128 \<or> (128 \<le> b \<and> b < 194) \<or> 245 \<le> b)
         \<longrightarrow> keep_decodable file_bytes = filter (\<lambda>b. b < 128) file_bytes
           \<and> read_mbox_content file_bytes
             = Inr (universal_newlines (filter (\<lambda>b. b < 128) file_bytes)))"
proof (intro conjI allI impI)
  from utf8_decode_Ignore_total obtain s where s: "utf8_decode Ignore file_bytes = Inr s" by blast
  then have "utf8_decode Strict (keep_decodable file_bytes) = Inr s" by (simp add: decode_kept)
  moreover from s have "read_mbox_content file_bytes = Inr (universal_newlines s)"
    by (simp add: read_mbox_content_def)
  ultimately show "\<exists>s. utf8_decode Strict (keep_decodable file_bytes) = Inr s
        \<and> read_mbox_content file_bytes = Inr (universal_newlines s)" by blast
next
  show "subseq (keep_decodable file_bytes) file_bytes" by (rule keep_decodable_subseq)
next
  fix s
  assume "read_mbox_content file_bytes = Inr s \<and> 65533 \<in> set s"
  then have "read_mbox_content file_bytes = Inr s" and "65533 \<in> set s" by simp_all
  then show "\<exists>xs ys. file_bytes = xs @ [239, 191, 189] @ ys" by (rule read_replacement)
next
  fix s
  assume "utf8_decode Strict file_bytes = Inr s"
  then show "keep_decodable file_bytes = file_bytes" by (rule keep_decodable_valid)
next
  fix s
  assume "utf8_decode Strict file_bytes = Inr s"
  then have "utf8_decode Ignore file_bytes = Inr s" by (rule utf8_decode_Strict_Ignore)
  then show "read_mbox_content file_bytes = Inr (universal_newlines s)"
    by (simp add: read_mbox_content_def)
next
  assume "\<forall>b\<in>set file_bytes. b < 128 \<or> (128 \<le> b \<and> b < 194) \<or> 245 \<le> b"
  then show "keep_decodable file_bytes = filter (\<lambda>b. b < 128) file_bytes"
    by (rule keep_decodable_drops)
next
  assume "\<forall>b\<in>set file_bytes. b < 128 \<or> (128 \<le> b \<and> b < 194) \<or> 245 \<le> b"
  then have "utf8_decode Ignore file_bytes = Inr (filter (\<lambda>b. b < 128) file_bytes)"
    by (rule utf8_decode_Ignore_drops)
  then show "read_mbox_content file_bytes = Inr (universal_newlines (filter (\<lambda>b. b < 128) file_bytes))"
    by (simp add: read_mbox_content_def)
qed

text \<open>
  A stray byte \<open>0xFF\<close>, a character of two bytes, a character of three bytes cut
  short after its second byte, and a stray byte behind a character.
\<close>

theorem read_mbox_content_ignores_witness:
  "read_mbox_content [97, 255, 13, 10, 98] = Inr [97, 10, 98]
   \<and> read_mbox_content [195, 169] = Inr [233]
   \<and> keep_decodable [97, 226, 130, 98] = [97, 98]
   \<and> read_mbox_content [97, 226, 130, 98] = Inr [97, 98]
   \<and> keep_decodable [195, 169, 255] = [195, 169]
   \<and> read_mbox_content [195, 169, 255] = Inr [233]"
proof -
  have a: "read_mbox_content [97, 255, 13, 10, 98] = Inr [97, 10, 98]"
    using read_mbox_content_ignores[of "[97, 255, 13, 10, 98]"] by simp
  have "utf8_decode Strict [195, 169] = Inr [233]"
    by (simp add: utf8_first_def is_cont_def)
  then have b: "read_mbox_content [195, 169] = Inr [233]"
    using read_mbox_content_ignores[of "[195, 169]"] by simp
  have k1: "keep_decodable [97, 226, 130, 98] = [97, 98]"
    by (simp add: utf8_first_def is_cont_def)
  have c: "read_mbox_content [97, 226, 130, 98] = Inr [97, 98]"
  proof -
    from read_mbox_content_ignores[of "[97, 226, 130, 98]"] obtain s
      where k: "utf8_decode Strict (keep_decodable [97, 226, 130, 98]) = Inr s"
        and r: "read_mbox_content [97, 226, 130, 98] = Inr (universal_newlines s)"
      by blast
    from k[unfolded k1] have "s = [97, 98]" by (simp add: utf8_first_def)
    with r show ?thesis by simp
  qed
  have k2: "keep_decodable [195, 169, 255] = [195, 169]"
    by (simp add: utf8_first_def is_cont_def)
  have d: "read_mbox_content [195, 169, 255] = Inr [233]"
  proof -
    from read_mbox_content_ignores[of "[195, 169, 255]"] obtain s
      where k: "utf8_decode Strict (keep_decodable [195, 169, 255]) = Inr s"
        and r: "read_mbox_content [195, 169, 255] = Inr (universal_newlines s)"
      by blast
    from k[unfolded k2] have "s = [233]" by (simp add: utf8_first_def is_cont_def)
    with r show ?thesis by simp
  qed
  from a b k1 c k2 d show ?thesis by simp
qed

text \<open>
  The claim fails: the byte \<open>0xFF\<close> between \<open>a\<close> and \<open>b\<close> is removed, the text read
  is \<open>ab\<close>, and no replacement character \<open>U+FFFD\<close> stands in it.  The same holds of a
  character cut short and of a stray byte behind a character.
\<close>

theorem read_mbox_content_replaces_counterexample:
  "read_mbox_content [97, 255, 98] = Inr [97, 98]
   \<and> read_mbox_content [97, 255, 98] \<noteq> Inr [97, 65533, 98]
   \<and> read_mbox_content [97, 226, 130, 98] = Inr [97, 98]
   \<and> read_mbox_content [195, 169, 255] = Inr [233]"
  by (simp add: read_mbox_content_def utf8_first_def is_cont_def)

section \<open>One part of the split\<close>

lemma section_loop_gen:
  "for_each (section_step (pre @ ls)) (hs, hl, bl) [length pre ..< length pre + length ls]
   = Inr (if hs then (\<forall>l\<in>set ls. strip l \<noteq> [], hl @ takeWhile (\<lambda>l. strip l \<noteq> []) ls,
                      bl @ drop 1 (dropWhile (\<lambda>l. strip l \<noteq> []) ls))
          else (False, hl, bl @ ls))"
proof (induction ls arbitrary: pre hs hl bl)
  case Nil
  then show ?case by simp
next
  case (Cons l ls)
  have idx: "[length pre ..< length pre + length (l # ls)]
      = length pre # [Suc (length pre) ..< Suc (length pre + length ls)]"
    using upt_conv_Cons[of "length pre" "length pre + length (l # ls)"] by simp
  have get: "list_getitem (pre @ l # ls) (length pre) = Inr l"
    by (simp add: list_getitem_def)
  have IH: "\<And>hs hl bl. for_each (section_step (pre @ l # ls)) (hs, hl, bl)
        [Suc (length pre) ..< Suc (length pre + length ls)]
      = Inr (if hs then (\<forall>l\<in>set ls. strip l \<noteq> [], hl @ takeWhile (\<lambda>l. strip l \<noteq> []) ls,
                      bl @ drop 1 (dropWhile (\<lambda>l. strip l \<noteq> []) ls))
          else (False, hl, bl @ ls))"
    using Cons[of "pre @ [l]"] by simp
  have step: "section_step (pre @ l # ls) (hs, hl, bl) (length pre)
      = Inr (if hs \<and> strip l = [] then (False, hl, bl)
             else if hs then (hs, hl @ [l], bl) else (hs, hl, bl @ [l]))"
    by (simp add: section_step_def get)
  show ?case
    unfolding idx by (simp add: step IH del: upt_Suc)
qed

lemma section_loop:
  "for_each (section_step (l0 # ls)) (True, [], []) [1 ..< length (l0 # ls)]
   = Inr (\<forall>l\<in>set ls. strip l \<noteq> [], takeWhile (\<lambda>l. strip l \<noteq> []) ls,
          drop 1 (dropWhile (\<lambda>l. strip l \<noteq> []) ls))"
  using section_loop_gen[of "[l0]" ls True "[]" "[]"] by simp

lemma header_step_Inr: "header_step W st l = Inr (header_effect W st l)"
  by (cases st)
     (auto simp: header_effect_def header_step_def dict_getitem_present
           split: option.splits prod.splits)

lemma header_loop: "for_each (header_step W) st ls = Inr (foldl (header_effect W) st ls)"
  by (induction ls arbitrary: st) (simp_all add: header_step_Inr)

lemma parse_part_lines:
  assumes "strip t \<noteq> []" and "splitlines t = l0 # ls"
  shows "parse_part W t = Inr (Some \<lparr>headers =
            fst (foldl (header_effect W) ([], None) (takeWhile (\<lambda>l. strip l \<noteq> []) ls)),
          body = join [10] (drop 1 (dropWhile (\<lambda>l. strip l \<noteq> []) ls))\<rparr>)"
proof -
  have loop: "for_each (section_step (splitlines t)) (True, [], []) [1 ..< length (splitlines t)]
      = Inr (\<forall>l\<in>set ls. strip l \<noteq> [], takeWhile (\<lambda>l. strip l \<noteq> []) ls,
          drop 1 (dropWhile (\<lambda>l. strip l \<noteq> []) ls))"
    unfolding assms(2) by (rule section_loop)
  show ?thesis
    unfolding parse_part_def Let_def loop header_loop
    using assms by (simp split: prod.splits)
qed

lemma splitlines_from_Nil: "splitlines_from cur s = [] \<Longrightarrow> s = [] \<and> cur = []"
proof (induction s arbitrary: cur)
  case Nil
  then show ?case by (simp split: if_splits)
next
  case (Cons c cs)
  show ?case
  proof (cases "c = 13")
    case True
    with Cons.prems show ?thesis by (cases cs) (simp_all split: if_splits)
  next
    case False
    show ?thesis
    proof (cases "is_linebreak c")
      case True
      with False Cons.prems show ?thesis by simp
    next
      case nl: False
      with False Cons.prems have "splitlines_from (cur @ [c]) cs = []" by simp
      from Cons.IH[OF this] show ?thesis by simp
    qed
  qed
qed

lemma splitlines_nonempty: "s \<noteq> [] \<Longrightarrow> splitlines s \<noteq> []"
  using splitlines_from_Nil[of "[]" s] by (auto simp: splitlines_def)

lemma parse_part_Some:
  assumes "strip t \<noteq> []"
  shows "\<exists>r. parse_part W t = Inr (Some r)"
proof -
  from assms have "t \<noteq> []" by (auto simp: strip_def)
  then obtain l0 ls where "splitlines t = l0 # ls"
    using splitlines_nonempty by (cases "splitlines t") auto
  from parse_part_lines[OF assms this] show ?thesis by blast
qed

lemma parse_part_total: "\<exists>r. parse_part W t = Inr r"
proof (cases "strip t = [] \<or> splitlines t = []")
  case True
  then show ?thesis by (auto simp: parse_part_def)
next
  case False
  then obtain l0 ls where "splitlines t = l0 # ls" by (cases "splitlines t") auto
  with False parse_part_lines show ?thesis by blast
qed

lemma takeWhile_block:
  "\<forall>x\<in>set xs. P x \<Longrightarrow> ys = [] \<or> \<not> P (hd ys) \<Longrightarrow> takeWhile P (xs @ ys) = xs"
  by (cases ys) simp_all

lemma dropWhile_block:
  "\<forall>x\<in>set xs. P x \<Longrightarrow> ys = [] \<or> \<not> P (hd ys) \<Longrightarrow> dropWhile P (xs @ ys) = ys"
  by (cases ys) simp_all

lemma join_Cons: "join sep (x # xs) = x @ concat (map (\<lambda>l. sep @ l) xs)"
  by (induction xs arbitrary: x) simp_all

text \<open>
  C6.  In a part that is not blank and whose lines are the envelope line, a header block
  without a blank line, a blank line and then further lines, the body of the record is
  those further lines joined by \<open>\n\<close>; the blank line is not part of it.
\<close>

theorem body_after_blank_line:
  assumes "strip email_text \<noteq> []"
    and "splitlines email_text = envelope # header_block @ [sep] @ trailing"
    and "\<forall>x\<in>set header_block. strip x \<noteq> []"
    and "strip sep = []"
  shows "\<exists>h. parse_part W email_text = Inr (Some \<lparr>headers = h, body = join [10] trailing\<rparr>)"
proof -
  have "dropWhile (\<lambda>l. strip l \<noteq> []) (header_block @ [sep] @ trailing) = [sep] @ trailing"
    using assms(3,4) by (intro dropWhile_block) simp_all
  then have "drop 1 (dropWhile (\<lambda>l. strip l \<noteq> []) (header_block @ [sep] @ trailing)) = trailing"
    by simp
  with parse_part_lines[OF assms(1,2), of W] show ?thesis by simp
qed

theorem body_after_blank_line_witness:
  "\<exists>h. parse_part (\<lambda>_. False)
      (S ''From a'' @ [10] @ S ''Subject: Hi'' @ [10, 10] @ S ''Hello'' @ [10] @ S ''there'')
    = Inr (Some \<lparr>headers = h, body = S ''Hello'' @ [10] @ S ''there''\<rparr>)"
  using body_after_blank_line[of
      "S ''From a'' @ [10] @ S ''Subject: Hi'' @ [10, 10] @ S ''Hello'' @ [10] @ S ''there''"
      "S ''From a''" "[S ''Subject: Hi'']" "[]" "[S ''Hello'', S ''there'']" "\<lambda>_. False"]
  by (simp add: eval_defs)

section \<open>Header lines\<close>

lemma header_effect_eq:
  "header_effect W (h, cur) l =
     (if is_continuation l then
        (case cur of
           None \<Rightarrow> (h, cur)
         | Some k \<Rightarrow>
             if k \<noteq> [] \<and> map_of h k \<noteq> None
             then (dict_setitem h k (the (map_of h k) @ [10] @ strip l), cur) else (h, cur))
      else
        (case header_match W l of
           None \<Rightarrow> (h, cur)
         | Some (key, v) \<Rightarrow>
             if map_of h key = None then (dict_setitem h key (strip v), Some key) else (h, cur)))"
  by (auto simp: header_effect_def header_step_def dict_contains_def dict_getitem_def
           split: option.splits)

lemma effect_continuation:
  "is_continuation l \<Longrightarrow> k \<noteq> [] \<Longrightarrow> map_of h k = Some old \<Longrightarrow>
   header_effect W (h, Some k) l = (dict_setitem h k (old @ [10] @ strip l), Some k)"
  by (simp add: header_effect_def header_step_def dict_contains_def dict_getitem_def)

lemma effect_continuation_None:
  "is_continuation l \<Longrightarrow> header_effect W (h, None) l = (h, None)"
  by (simp add: header_effect_def header_step_def)

lemma effect_new_key:
  "\<not> is_continuation l \<Longrightarrow> header_match W l = Some (k, v) \<Longrightarrow> map_of h k = None \<Longrightarrow>
   header_effect W (h, cur) l = (dict_setitem h k (strip v), Some k)"
  by (simp add: header_effect_def header_step_def dict_contains_def)

lemma effect_duplicate:
  "\<not> is_continuation l \<Longrightarrow> header_match W l = Some (k, v) \<Longrightarrow> map_of h k \<noteq> None \<Longrightarrow>
   header_effect W (h, cur) l = (h, cur)"
  by (auto simp: header_effect_def header_step_def dict_contains_def)

lemma effect_unparseable:
  "\<not> is_continuation l \<Longrightarrow> header_match W l = None \<Longrightarrow> header_effect W st l = st"
  by (cases st) (simp add: header_effect_def header_step_def)

lemma header_match_key_nonempty: "header_match W l = Some (k, v) \<Longrightarrow> k \<noteq> []"
  by (auto simp: header_match_def Let_def split: if_splits list.splits)

lemma continuation_no_match: "is_continuation l \<Longrightarrow> header_match W l = None"
  by (cases l) (auto simp: is_continuation_def startswith_def header_match_def is_word_def)

lemma fold_pair: "\<exists>h c. foldl (header_effect W) st ls = (h, c)"
  by (cases "foldl (header_effect W) st ls") simp

lemma effect_frozen:
  assumes "map_of h k = Some x" and "cur \<noteq> Some k"
    and "header_effect W (h, cur) l = (h', cur')"
  shows "map_of h' k = Some x \<and> cur' \<noteq> Some k"
  using assms
  by (auto simp: header_effect_eq map_of_dict_setitem split: if_splits option.splits)

lemma fold_frozen:
  assumes "map_of h k = Some x" and "cur \<noteq> Some k"
    and "foldl (header_effect W) (h, cur) ls = (h', cur')"
  shows "map_of h' k = Some x \<and> cur' \<noteq> Some k"
  using assms
proof (induction ls arbitrary: h cur)
  case Nil
  then show ?case by simp
next
  case (Cons l ls)
  obtain h1 c1 where s: "header_effect W (h, cur) l = (h1, c1)" by (cases "header_effect W (h, cur) l")
  from effect_frozen[OF Cons.prems(1,2) s] have "map_of h1 k = Some x" "c1 \<noteq> Some k" by simp_all
  moreover from Cons.prems(3) s have "foldl (header_effect W) (h1, c1) ls = (h', cur')" by simp
  ultimately show ?case by (rule Cons.IH)
qed

lemma fold_continuations:
  assumes "\<forall>l\<in>set ls. is_continuation l" and "k \<noteq> []" and "map_of h k = Some x"
  shows "\<exists>h'. foldl (header_effect W) (h, Some k) ls = (h', Some k)
           \<and> map_of h' k = Some (x @ concat (map (\<lambda>l. 10 # strip l) ls))"
  using assms
proof (induction ls arbitrary: h x)
  case Nil
  then show ?case by simp
next
  case (Cons l ls)
  from Cons.prems have l: "is_continuation l" by simp
  have s: "header_effect W (h, Some k) l = (dict_setitem h k (x @ [10] @ strip l), Some k)"
    using l Cons.prems(2,3) by (rule effect_continuation)
  have m: "map_of (dict_setitem h k (x @ [10] @ strip l)) k = Some (x @ [10] @ strip l)"
    by (simp add: map_of_dict_setitem)
  from Cons.prems(1) have "\<forall>l\<in>set ls. is_continuation l" by simp
  from Cons.IH[OF this Cons.prems(2) m] s show ?case by simp
qed

lemma effect_grows:
  assumes "map_of h k = Some x" and "header_effect W (h, cur) l = (h', cur')"
  shows "\<exists>y. map_of h' k = Some (x @ y)"
  using assms
  by (auto simp: header_effect_eq map_of_dict_setitem split: if_splits option.splits)

lemma fold_grows:
  assumes "map_of h k = Some x" and "foldl (header_effect W) (h, cur) ls = (h', cur')"
  shows "\<exists>y. map_of h' k = Some (x @ y)"
  using assms
proof (induction ls arbitrary: h cur x)
  case Nil
  then show ?case by simp
next
  case (Cons l ls)
  obtain h1 c1 where s: "header_effect W (h, cur) l = (h1, c1)" by (cases "header_effect W (h, cur) l")
  from effect_grows[OF Cons.prems(1) s] obtain y where y: "map_of h1 k = Some (x @ y)" by blast
  from Cons.prems(2) s have "foldl (header_effect W) (h1, c1) ls = (h', cur')" by simp
  from Cons.IH[OF y this] obtain z where "map_of h' k = Some ((x @ y) @ z)" by blast
  then show ?case by simp
qed

lemma effect_no_continuation:
  assumes "\<not> is_continuation l" and "map_of h k = Some x"
    and "header_effect W (h, cur) l = (h', cur')"
  shows "map_of h' k = Some x"
  using assms
  by (auto simp: header_effect_eq map_of_dict_setitem split: if_splits option.splits)

lemma fold_no_continuation:
  assumes "\<forall>l\<in>set ls. \<not> is_continuation l" and "map_of h k = Some x"
    and "foldl (header_effect W) (h, cur) ls = (h', cur')"
  shows "map_of h' k = Some x"
  using assms
proof (induction ls arbitrary: h cur)
  case Nil
  then show ?case by simp
next
  case (Cons l ls)
  obtain h1 c1 where s: "header_effect W (h, cur) l = (h1, c1)" by (cases "header_effect W (h, cur) l")
  from Cons.prems(1) have "\<not> is_continuation l" by simp
  from effect_no_continuation[OF this Cons.prems(2) s] have m: "map_of h1 k = Some x" .
  from Cons.prems(1) have r: "\<forall>l\<in>set ls. \<not> is_continuation l" by simp
  from Cons.prems(3) s have "foldl (header_effect W) (h1, c1) ls = (h', cur')" by simp
  from Cons.IH[OF r m this] show ?case .
qed

lemma effect_distinct:
  assumes "distinct (map fst h)" and "header_effect W (h, cur) l = (h', cur')"
  shows "distinct (map fst h')"
  using assms
  by (auto simp: header_effect_eq keys_dict_setitem map_of_eq_None_iff
           split: if_splits option.splits)

lemma fold_distinct:
  assumes "distinct (map fst h)" and "foldl (header_effect W) (h, cur) ls = (h', cur')"
  shows "distinct (map fst h')"
  using assms
proof (induction ls arbitrary: h cur)
  case Nil
  then show ?case by simp
next
  case (Cons l ls)
  obtain h1 c1 where s: "header_effect W (h, cur) l = (h1, c1)" by (cases "header_effect W (h, cur) l")
  from effect_distinct[OF Cons.prems(1) s] have d: "distinct (map fst h1)" .
  from Cons.prems(2) s have "foldl (header_effect W) (h1, c1) ls = (h', cur')" by simp
  from Cons.IH[OF d this] show ?case .
qed

lemma effect_keys:
  assumes "header_effect W (h, cur) l = (h', cur')" and "map_of h' k \<noteq> None"
  shows "map_of h k \<noteq> None \<or> (\<exists>v. header_match W l = Some (k, v))"
  using assms
  by (auto simp: header_effect_eq map_of_dict_setitem split: if_splits option.splits)

lemma fold_keys:
  assumes "foldl (header_effect W) (h, cur) ls = (h', cur')" and "map_of h' k \<noteq> None"
  shows "map_of h k \<noteq> None \<or> (\<exists>l\<in>set ls. \<exists>v. header_match W l = Some (k, v))"
  using assms
proof (induction ls arbitrary: h cur)
  case Nil
  then show ?case by simp
next
  case (Cons l ls)
  obtain h1 c1 where s: "header_effect W (h, cur) l = (h1, c1)" by (cases "header_effect W (h, cur) l")
  from Cons.prems(1) s have "foldl (header_effect W) (h1, c1) ls = (h', cur')" by simp
  from Cons.IH[OF this Cons.prems(2)]
  have "map_of h1 k \<noteq> None \<or> (\<exists>l\<in>set ls. \<exists>v. header_match W l = Some (k, v))" .
  with effect_keys[OF s] show ?case by auto
qed

lemma fold_fresh:
  assumes "foldl (header_effect W) ([], None) pre = (h, c)"
    and "\<forall>p\<in>set pre. \<forall>v. header_match W p \<noteq> Some (k, v)"
  shows "map_of h k = None"
proof (rule ccontr)
  assume "map_of h k \<noteq> None"
  from fold_keys[OF assms(1) this] assms(2) show False by auto
qed

lemma fold_no_key:
  assumes "\<forall>j\<in>set junk. is_continuation j \<or> header_match W j = None"
  shows "foldl (header_effect W) (h, None) junk = (h, None)"
  using assms
proof (induction junk)
  case Nil
  then show ?case by simp
next
  case (Cons j junk)
  then have "header_effect W (h, None) j = (h, None)"
    by (cases "is_continuation j") (auto simp: effect_continuation_None effect_unparseable)
  with Cons show ?case by simp
qed

lemma folded_header:
  assumes nonblank: "strip email_text \<noteq> []"
    and lines: "splitlines email_text = envelope # pre @ [l] @ conts @ post @ rest"
    and block: "\<forall>x\<in>set (pre @ [l] @ conts @ post). strip x \<noteq> []"
    and rest: "rest = [] \<or> strip (hd rest) = []"
    and l: "\<not> is_continuation l" "header_match W l = Some (k, v)"
    and fresh: "\<forall>p\<in>set pre. \<forall>v'. header_match W p \<noteq> Some (k, v')"
    and conts: "\<forall>c\<in>set conts. is_continuation c"
    and post: "post = [] \<or> (\<exists>k' v'. \<not> is_continuation (hd post)
        \<and> header_match W (hd post) = Some (k', v') \<and> k' \<noteq> k
        \<and> (\<forall>p\<in>set pre. \<forall>v''. header_match W p \<noteq> Some (k', v'')))"
  shows "\<exists>r. parse_part W email_text = Inr (Some r)
       \<and> map_of (headers r) k = Some (join [10] (strip v # map strip conts))
       \<and> length (filter (\<lambda>e. fst e = k) (headers r)) = 1"
proof -
  let ?nb = "\<lambda>l. strip l \<noteq> []"
  let ?f = "foldl (header_effect W)"
  have tw: "takeWhile ?nb ((pre @ [l] @ conts @ post) @ rest) = pre @ [l] @ conts @ post"
    using block rest by (intro takeWhile_block) auto
  obtain h0 c0 where s0: "?f ([], None) pre = (h0, c0)" using fold_pair by blast
  have k0: "map_of h0 k = None" using s0 fresh by (rule fold_fresh)
  let ?h1 = "dict_setitem h0 k (strip v)"
  have s1: "header_effect W (h0, c0) l = (?h1, Some k)"
    using l k0 by (rule effect_new_key)
  have m1: "map_of ?h1 k = Some (strip v)" by (simp add: map_of_dict_setitem)
  have kne: "k \<noteq> []" using l(2) by (rule header_match_key_nonempty)
  let ?val = "strip v @ concat (map (\<lambda>l. 10 # strip l) conts)"
  from fold_continuations[OF conts kne m1] obtain h2
    where s2: "?f (?h1, Some k) conts = (h2, Some k)" and m2: "map_of h2 k = Some ?val"
    by blast
  obtain h3 c3 where s3: "?f (h2, Some k) post = (h3, c3)" using fold_pair by blast
  have m3: "map_of h3 k = Some ?val"
  proof (cases post)
    case Nil
    with s3 m2 show ?thesis by simp
  next
    case (Cons p ps)
    with post obtain k' v' where p: "\<not> is_continuation p" "header_match W p = Some (k', v')"
      and k': "k' \<noteq> k" and fresh': "\<forall>p\<in>set pre. \<forall>v''. header_match W p \<noteq> Some (k', v'')"
      by auto
    have "map_of h0 k' = None" using s0 fresh' by (rule fold_fresh)
    with k' have n1: "map_of ?h1 k' = None" by (simp add: map_of_dict_setitem)
    have n2: "map_of h2 k' = None"
    proof (rule ccontr)
      assume "map_of h2 k' \<noteq> None"
      from fold_keys[OF s2 this] n1 conts show False
        by (auto simp: continuation_no_match)
    qed
    let ?h4 = "dict_setitem h2 k' (strip v')"
    have s4: "header_effect W (h2, Some k) p = (?h4, Some k')"
      using p n2 by (rule effect_new_key)
    have m4: "map_of ?h4 k = Some ?val" using m2 k' by (simp add: map_of_dict_setitem)
    have "?f (?h4, Some k') ps = (h3, c3)" using s3 s4 Cons by simp
    with fold_frozen[OF m4, of "Some k'" W ps h3 c3] k' show ?thesis by simp
  qed
  have all: "?f ([], None) (pre @ [l] @ conts @ post) = (h3, c3)"
    using s0 s1 s2 s3 by simp
  have d: "distinct (map fst h3)"
    using fold_distinct[OF _ all] by simp
  have j: "join [10] (strip v # map strip conts) = ?val"
    by (simp add: join_Cons o_def)
  from parse_part_lines[OF nonblank lines, of W]
  have "parse_part W email_text = Inr (Some \<lparr>headers = h3,
      body = join [10] (drop 1 (dropWhile ?nb (pre @ [l] @ conts @ post @ rest)))\<rparr>)"
    using tw all by simp
  with m3 j once_if_distinct[OF d m3] show ?thesis by simp
qed

lemma early_continuation:
  assumes "strip t1 \<noteq> []" and "strip t2 \<noteq> []"
    and "splitlines t1 = e1 # junk @ ws @ rest"
    and "splitlines t2 = e2 # junk @ rest"
    and junk: "\<forall>j\<in>set junk. strip j \<noteq> [] \<and> (is_continuation j \<or> header_match W j = None)"
    and ws: "\<forall>w\<in>set ws. strip w \<noteq> [] \<and> is_continuation w"
  shows "parse_part W t1 = parse_part W t2"
proof -
  let ?nb = "\<lambda>l. strip l \<noteq> []"
  let ?f = "foldl (header_effect W)"
  have t1: "takeWhile ?nb (junk @ ws @ rest) = junk @ ws @ takeWhile ?nb rest"
    using junk ws by simp
  have t2: "takeWhile ?nb (junk @ rest) = junk @ takeWhile ?nb rest"
    using junk by simp
  have d1: "dropWhile ?nb (junk @ ws @ rest) = dropWhile ?nb rest"
    using junk ws by simp
  have d2: "dropWhile ?nb (junk @ rest) = dropWhile ?nb rest"
    using junk by simp
  have j: "?f ([], None) junk = ([], None)"
    using junk by (intro fold_no_key) auto
  have w: "?f ([], None) ws = ([], None)"
    using ws by (intro fold_no_key) auto
  show ?thesis
    unfolding parse_part_lines[OF assms(1,3)] parse_part_lines[OF assms(2,4)] t1 t2 d1 d2
    by (simp add: j w)
qed

text \<open>
  C4, as the code has it.  In a part that is not blank, let the header block hold a
  header line with a key that no earlier line of the block has, followed by one or more
  continuation lines (lines that begin with a space or a tab) that are not blank, and
  then either the end of the block or a header line with another new key.  Then the
  record has exactly one entry for the key, and its value is the trimmed value of the
  header line followed by the trimmed continuation lines, joined by \<open>\n\<close>.
  Continuation lines that are not blank and come before any key is stored have no
  effect: the part parses as it does without them.
\<close>

theorem continuation_folding:
  "(strip email_text \<noteq> []
      \<and> splitlines email_text = envelope # pre @ [l] @ conts @ post @ rest
      \<and> (\<forall>x\<in>set (pre @ [l] @ conts @ post). strip x \<noteq> [])
      \<and> (rest = [] \<or> strip (hd rest) = [])
      \<and> \<not> is_continuation l \<and> header_match W l = Some (k, v)
      \<and> (\<forall>p\<in>set pre. \<forall>v'. header_match W p \<noteq> Some (k, v'))
      \<and> conts \<noteq> [] \<and> (\<forall>c\<in>set conts. is_continuation c)
      \<and> (post = [] \<or> (\<exists>k' v'. \<not> is_continuation (hd post)
            \<and> header_match W (hd post) = Some (k', v') \<and> k' \<noteq> k
            \<and> (\<forall>p\<in>set pre. \<forall>v''. header_match W p \<noteq> Some (k', v''))))
    \<longrightarrow> (\<exists>r. parse_part W email_text = Inr (Some r)
          \<and> map_of (headers r) k = Some (join [10] (strip v # map strip conts))
          \<and> length (filter (\<lambda>e. fst e = k) (headers r)) = 1))
   \<and> (strip t1 \<noteq> [] \<and> strip t2 \<noteq> []
      \<and> splitlines t1 = e1 # junk @ ws @ rest' \<and> splitlines t2 = e2 # junk @ rest'
      \<and> (\<forall>j\<in>set junk. strip j \<noteq> [] \<and> (is_continuation j \<or> header_match W j = None))
      \<and> (\<forall>w\<in>set ws. strip w \<noteq> [] \<and> is_continuation w)
    \<longrightarrow> parse_part W t1 = parse_part W t2)"
proof (intro conjI impI)
  assume a: "strip email_text \<noteq> []
      \<and> splitlines email_text = envelope # pre @ [l] @ conts @ post @ rest
      \<and> (\<forall>x\<in>set (pre @ [l] @ conts @ post). strip x \<noteq> [])
      \<and> (rest = [] \<or> strip (hd rest) = [])
      \<and> \<not> is_continuation l \<and> header_match W l = Some (k, v)
      \<and> (\<forall>p\<in>set pre. \<forall>v'. header_match W p \<noteq> Some (k, v'))
      \<and> conts \<noteq> [] \<and> (\<forall>c\<in>set conts. is_continuation c)
      \<and> (post = [] \<or> (\<exists>k' v'. \<not> is_continuation (hd post)
            \<and> header_match W (hd post) = Some (k', v') \<and> k' \<noteq> k
            \<and> (\<forall>p\<in>set pre. \<forall>v''. header_match W p \<noteq> Some (k', v''))))"
  from a have a1: "strip email_text \<noteq> []"
    and a2: "splitlines email_text = envelope # pre @ [l] @ conts @ post @ rest"
    and a3: "\<forall>x\<in>set (pre @ [l] @ conts @ post). strip x \<noteq> []"
    and a4: "rest = [] \<or> strip (hd rest) = []"
    and a5: "\<not> is_continuation l" and a6: "header_match W l = Some (k, v)"
    and a7: "\<forall>p\<in>set pre. \<forall>v'. header_match W p \<noteq> Some (k, v')"
    and a8: "\<forall>c\<in>set conts. is_continuation c"
    and a9: "post = [] \<or> (\<exists>k' v'. \<not> is_continuation (hd post)
            \<and> header_match W (hd post) = Some (k', v') \<and> k' \<noteq> k
            \<and> (\<forall>p\<in>set pre. \<forall>v''. header_match W p \<noteq> Some (k', v'')))"
    by simp_all
  from a1 a2 a3 a4 a5 a6 a7 a8 a9
  show "\<exists>r. parse_part W email_text = Inr (Some r)
          \<and> map_of (headers r) k = Some (join [10] (strip v # map strip conts))
          \<and> length (filter (\<lambda>e. fst e = k) (headers r)) = 1"
    by (rule folded_header)
next
  assume b: "strip t1 \<noteq> [] \<and> strip t2 \<noteq> []
      \<and> splitlines t1 = e1 # junk @ ws @ rest' \<and> splitlines t2 = e2 # junk @ rest'
      \<and> (\<forall>j\<in>set junk. strip j \<noteq> [] \<and> (is_continuation j \<or> header_match W j = None))
      \<and> (\<forall>w\<in>set ws. strip w \<noteq> [] \<and> is_continuation w)"
  from b have b1: "strip t1 \<noteq> []" and b2: "strip t2 \<noteq> []"
    and b3: "splitlines t1 = e1 # junk @ ws @ rest'" and b4: "splitlines t2 = e2 # junk @ rest'"
    and b5: "\<forall>j\<in>set junk. strip j \<noteq> [] \<and> (is_continuation j \<or> header_match W j = None)"
    and b6: "\<forall>w\<in>set ws. strip w \<noteq> [] \<and> is_continuation w"
    by simp_all
  from b1 b2 b3 b4 b5 b6 show "parse_part W t1 = parse_part W t2"
    by (rule early_continuation)
qed

theorem continuation_folding_witness:
  "(\<exists>r. parse_part (\<lambda>_. False)
        (S ''From a'' @ [10] @ S ''Subject: a'' @ [10] @ S '' b'' @ [10, 9] @ S ''c'' @ [10]
           @ S ''X: 1'' @ [10, 10] @ S ''body'') = Inr (Some r)
      \<and> map_of (headers r) (S ''Subject'') = Some (S ''a'' @ [10] @ S ''b'' @ [10] @ S ''c''))
   \<and> parse_part (\<lambda>_. False) (S ''From a'' @ [10] @ S '' x'' @ [10] @ S ''A: 1'')
     = parse_part (\<lambda>_. False) (S ''From a'' @ [10] @ S ''A: 1'')"
proof -
  let ?t = "S ''From a'' @ [10] @ S ''Subject: a'' @ [10] @ S '' b'' @ [10, 9] @ S ''c'' @ [10]
           @ S ''X: 1'' @ [10, 10] @ S ''body''"
  have h1: "strip ?t \<noteq> []
      \<and> splitlines ?t = S ''From a'' # [] @ [S ''Subject: a''] @ [S '' b'', 9 # S ''c'']
          @ [S ''X: 1''] @ [[], S ''body'']
      \<and> (\<forall>x\<in>set ([] @ [S ''Subject: a''] @ [S '' b'', 9 # S ''c''] @ [S ''X: 1'']). strip x \<noteq> [])
      \<and> ([[], S ''body''] = [] \<or> strip (hd [[], S ''body'']) = [])
      \<and> \<not> is_continuation (S ''Subject: a'')
      \<and> header_match (\<lambda>_. False) (S ''Subject: a'') = Some (S ''Subject'', S ''a'')
      \<and> (\<forall>p\<in>set []. \<forall>v'. header_match (\<lambda>_. False) p \<noteq> Some (S ''Subject'', v'))
      \<and> [S '' b'', 9 # S ''c''] \<noteq> [] \<and> (\<forall>c\<in>set [S '' b'', 9 # S ''c'']. is_continuation c)
      \<and> ([S ''X: 1''] = [] \<or> (\<exists>k' v'. \<not> is_continuation (hd [S ''X: 1''])
            \<and> header_match (\<lambda>_. False) (hd [S ''X: 1'']) = Some (k', v') \<and> k' \<noteq> S ''Subject''
            \<and> (\<forall>p\<in>set []. \<forall>v''. header_match (\<lambda>_. False) p \<noteq> Some (k', v''))))"
    by (simp add: eval_defs)
  let ?t1 = "S ''From a'' @ [10] @ S '' x'' @ [10] @ S ''A: 1''"
  let ?t2 = "S ''From a'' @ [10] @ S ''A: 1''"
  have h2: "strip ?t1 \<noteq> [] \<and> strip ?t2 \<noteq> []
      \<and> splitlines ?t1 = S ''From a'' # [] @ [S '' x''] @ [S ''A: 1'']
      \<and> splitlines ?t2 = S ''From a'' # [] @ [S ''A: 1'']
      \<and> (\<forall>j\<in>set []. strip j \<noteq> [] \<and> (is_continuation j \<or> header_match (\<lambda>_. False) j = None))
      \<and> (\<forall>w\<in>set [S '' x'']. strip w \<noteq> [] \<and> is_continuation w)"
    by (simp add: eval_defs)
  note inst = continuation_folding[of ?t "S ''From a''" "[]" "S ''Subject: a''"
      "[S '' b'', 9 # S ''c'']" "[S ''X: 1'']" "[[], S ''body'']" "\<lambda>_. False" "S ''Subject''" "S ''a''"
      ?t1 ?t2 "S ''From a''" "[]" "[S '' x'']" "[S ''A: 1'']" "S ''From a''"]
  from inst h1 obtain r where "parse_part (\<lambda>_. False) ?t = Inr (Some r)"
    and "map_of (headers r) (S ''Subject'')
      = Some (join [10] (strip (S ''a'') # map strip [S '' b'', 9 # S ''c'']))"
    by blast
  moreover have "join [10] (strip (S ''a'') # map strip [S '' b'', 9 # S ''c''])
      = S ''a'' @ [10] @ S ''b'' @ [10] @ S ''c''"
    by (simp add: eval_defs)
  moreover from inst h2 have "parse_part (\<lambda>_. False) ?t1 = parse_part (\<lambda>_. False) ?t2"
    by blast
  ultimately show ?thesis by auto
qed

text \<open>
  The claim fails for a header line whose key the block already has: its continuation
  lines are appended to the value of the first line with that key, and no value begins
  with the content of the second.  It fails for a continuation line of white space
  only, too, which is a blank line and ends the header block: behind \<open>A: 1\<close> it makes
  \<open>B: 2\<close> the body, and before any key it makes \<open>A: 1\<close> the body, where the part
  without that line has the header \<open>A\<close>.
\<close>

theorem continuation_after_repeated_key_counterexample:
  "parse_mbox (\<lambda>_. False)
      (S ''From a'' @ [10] @ S ''Received: x'' @ [10] @ S '' by y'' @ [10] @ S ''Received: z''
         @ [10] @ S '' by w'' @ [10])
    = Inr ([], [\<lparr>headers = [(S ''Received'', S ''x'' @ [10] @ S ''by y'' @ [10] @ S ''by w'')],
                 body = []\<rparr>])
   \<and> parse_mbox (\<lambda>_. False)
      (S ''From a'' @ [10] @ S ''A: 1'' @ [10] @ S '' '' @ [10] @ S ''B: 2'' @ [10])
    = Inr ([], [\<lparr>headers = [(S ''A'', S ''1'')], body = S ''B: 2''\<rparr>])
   \<and> parse_mbox (\<lambda>_. False) (S ''From a'' @ [10] @ S '' '' @ [10] @ S ''A: 1'' @ [10])
    = Inr ([], [\<lparr>headers = [], body = S ''A: 1''\<rparr>])
   \<and> parse_mbox (\<lambda>_. False) (S ''From a'' @ [10] @ S ''A: 1'' @ [10])
    = Inr ([], [\<lparr>headers = [(S ''A'', S ''1'')], body = []\<rparr>])"
  by (simp add: parse_mbox_def re_split_From_def list_getitem_def list_pop0_def append_email_def
      parse_part_def section_step_def header_step_def dict_contains_def dict_getitem_def
      eval_defs)

lemma duplicate_header:
  assumes nonblank: "strip email_text \<noteq> []"
    and lines: "splitlines email_text = envelope # pre @ [l1] @ mid @ [l2] @ post @ rest"
    and block: "\<forall>x\<in>set (pre @ [l1] @ mid @ [l2] @ post). strip x \<noteq> []"
    and rest: "rest = [] \<or> strip (hd rest) = []"
    and l1: "\<not> is_continuation l1" "header_match W l1 = Some (k, v1)"
    and l2: "\<not> is_continuation l2" "header_match W l2 = Some (k, v2)"
    and fresh: "\<forall>p\<in>set pre. \<forall>v'. header_match W p \<noteq> Some (k, v')"
  shows "\<exists>r. parse_part W email_text = Inr (Some r)
       \<and> length (filter (\<lambda>e. fst e = k) (headers r)) = 1
       \<and> (\<exists>y. map_of (headers r) k = Some (strip v1 @ y))
       \<and> ((\<forall>x\<in>set (mid @ post). \<not> is_continuation x) \<longrightarrow> map_of (headers r) k = Some (strip v1))
       \<and> (\<forall>t' e'. strip t' \<noteq> [] \<and> splitlines t' = e' # pre @ [l1] @ mid @ post @ rest
             \<longrightarrow> parse_part W t' = Inr (Some r))"
proof -
  let ?nb = "\<lambda>l. strip l \<noteq> []"
  let ?f = "foldl (header_effect W)"
  have tw: "takeWhile ?nb ((pre @ [l1] @ mid @ [l2] @ post) @ rest) = pre @ [l1] @ mid @ [l2] @ post"
    using block rest by (intro takeWhile_block) auto
  have dw: "dropWhile ?nb ((pre @ [l1] @ mid @ [l2] @ post) @ rest) = rest"
    using block rest by (intro dropWhile_block) auto
  have tw': "takeWhile ?nb ((pre @ [l1] @ mid @ post) @ rest) = pre @ [l1] @ mid @ post"
    using block rest by (intro takeWhile_block) auto
  have dw': "dropWhile ?nb ((pre @ [l1] @ mid @ post) @ rest) = rest"
    using block rest by (intro dropWhile_block) auto
  obtain h0 c0 where s0: "?f ([], None) pre = (h0, c0)" using fold_pair by blast
  have k0: "map_of h0 k = None" using s0 fresh by (rule fold_fresh)
  let ?h1 = "dict_setitem h0 k (strip v1)"
  have s1: "header_effect W (h0, c0) l1 = (?h1, Some k)"
    using l1 k0 by (rule effect_new_key)
  have m1: "map_of ?h1 k = Some (strip v1)" by (simp add: map_of_dict_setitem)
  obtain h2 c2 where s2: "?f (?h1, Some k) mid = (h2, c2)" using fold_pair by blast
  from fold_grows[OF m1 s2] obtain y2 where m2: "map_of h2 k = Some (strip v1 @ y2)" by blast
  have s3: "header_effect W (h2, c2) l2 = (h2, c2)"
    using l2 m2 by (intro effect_duplicate) auto
  obtain h4 c4 where s4: "?f (h2, c2) post = (h4, c4)" using fold_pair by blast
  from fold_grows[OF m2 s4] obtain y4 where m4: "map_of h4 k = Some (strip v1 @ y2 @ y4)" by auto
  have all: "?f ([], None) (pre @ [l1] @ mid @ [l2] @ post) = (h4, c4)"
    using s0 s1 s2 s3 s4 by simp
  have all': "?f ([], None) (pre @ [l1] @ mid @ post) = (h4, c4)"
    using s0 s1 s2 s4 by simp
  have d: "distinct (map fst h4)"
    using fold_distinct[OF _ all] by simp
  let ?r = "\<lparr>headers = h4, body = join [10] (drop 1 rest)\<rparr>"
  have p: "parse_part W email_text = Inr (Some ?r)"
    using parse_part_lines[OF nonblank lines, of W] tw dw all by simp
  have once: "length (filter (\<lambda>e. fst e = k) h4) = 1"
    using d m4 by (rule once_if_distinct)
  have exact: "map_of h4 k = Some (strip v1)" if nc: "\<forall>x\<in>set (mid @ post). \<not> is_continuation x"
  proof -
    from nc have "\<forall>x\<in>set mid. \<not> is_continuation x" by simp
    from fold_no_continuation[OF this m1 s2] have h2: "map_of h2 k = Some (strip v1)" .
    from nc have "\<forall>x\<in>set post. \<not> is_continuation x" by simp
    from fold_no_continuation[OF this h2 s4] show ?thesis .
  qed
  have same: "parse_part W t' = Inr (Some ?r)"
    if "strip t' \<noteq> []" and "splitlines t' = e' # pre @ [l1] @ mid @ post @ rest" for t' e'
    using parse_part_lines[OF that, of W] tw' dw' all' by simp
  show ?thesis
  proof (rule exI[of _ ?r], intro conjI)
    show "parse_part W email_text = Inr (Some ?r)" by (rule p)
    show "length (filter (\<lambda>e. fst e = k) (headers ?r)) = 1" using once by simp
    show "\<exists>y. map_of (headers ?r) k = Some (strip v1 @ y)" using m4 by simp
    show "(\<forall>x\<in>set (mid @ post). \<not> is_continuation x)
        \<longrightarrow> map_of (headers ?r) k = Some (strip v1)"
      using exact by simp
    show "\<forall>t' e'. strip t' \<noteq> [] \<and> splitlines t' = e' # pre @ [l1] @ mid @ post @ rest
        \<longrightarrow> parse_part W t' = Inr (Some ?r)"
      using same by blast
  qed
qed

lemma duplicate_step:
  assumes "\<not> is_continuation l" and "header_match W l = Some (k, v)" and "map_of h k \<noteq> None"
  shows "header_step W (h, cur) l = Inr (h, cur)"
  using effect_duplicate[OF assms] by (simp add: header_step_Inr)

text \<open>
  C5, as the code has it.  In a part that is not blank, let the header block hold two
  header lines with the same key, the first of them being the first line with that
  key.  Then the record has exactly one entry for the key; its value begins with the
  trimmed value of the first line, and is that value when no continuation line follows
  the first line in the block; the part parses as it does without the second line; and
  the second line changes neither the mapping nor the current key.
\<close>

theorem duplicate_header_first_wins:
  "(strip email_text \<noteq> []
      \<and> splitlines email_text = envelope # pre @ [l1] @ mid @ [l2] @ post @ rest
      \<and> (\<forall>x\<in>set (pre @ [l1] @ mid @ [l2] @ post). strip x \<noteq> [])
      \<and> (rest = [] \<or> strip (hd rest) = [])
      \<and> \<not> is_continuation l1 \<and> header_match W l1 = Some (k, v1)
      \<and> \<not> is_continuation l2 \<and> header_match W l2 = Some (k, v2)
      \<and> (\<forall>p\<in>set pre. \<forall>v'. header_match W p \<noteq> Some (k, v'))
    \<longrightarrow> (\<exists>r. parse_part W email_text = Inr (Some r)
          \<and> length (filter (\<lambda>e. fst e = k) (headers r)) = 1
          \<and> (\<exists>y. map_of (headers r) k = Some (strip v1 @ y))
          \<and> ((\<forall>x\<in>set (mid @ post). \<not> is_continuation x)
                \<longrightarrow> map_of (headers r) k = Some (strip v1))
          \<and> (\<forall>t' e'. strip t' \<noteq> [] \<and> splitlines t' = e' # pre @ [l1] @ mid @ post @ rest
                \<longrightarrow> parse_part W t' = Inr (Some r))))
   \<and> (\<not> is_continuation l2 \<and> header_match W l2 = Some (k, v2) \<and> map_of h k \<noteq> None
    \<longrightarrow> header_step W (h, cur) l2 = Inr (h, cur))"
proof (intro conjI impI)
  assume a: "strip email_text \<noteq> []
      \<and> splitlines email_text = envelope # pre @ [l1] @ mid @ [l2] @ post @ rest
      \<and> (\<forall>x\<in>set (pre @ [l1] @ mid @ [l2] @ post). strip x \<noteq> [])
      \<and> (rest = [] \<or> strip (hd rest) = [])
      \<and> \<not> is_continuation l1 \<and> header_match W l1 = Some (k, v1)
      \<and> \<not> is_continuation l2 \<and> header_match W l2 = Some (k, v2)
      \<and> (\<forall>p\<in>set pre. \<forall>v'. header_match W p \<noteq> Some (k, v'))"
  from a have a1: "strip email_text \<noteq> []"
    and a2: "splitlines email_text = envelope # pre @ [l1] @ mid @ [l2] @ post @ rest"
    and a3: "\<forall>x\<in>set (pre @ [l1] @ mid @ [l2] @ post). strip x \<noteq> []"
    and a4: "rest = [] \<or> strip (hd rest) = []"
    and a5: "\<not> is_continuation l1" and a6: "header_match W l1 = Some (k, v1)"
    and a7: "\<not> is_continuation l2" and a8: "header_match W l2 = Some (k, v2)"
    and a9: "\<forall>p\<in>set pre. \<forall>v'. header_match W p \<noteq> Some (k, v')"
    by simp_all
  from a1 a2 a3 a4 a5 a6 a7 a8 a9
  show "\<exists>r. parse_part W email_text = Inr (Some r)
          \<and> length (filter (\<lambda>e. fst e = k) (headers r)) = 1
          \<and> (\<exists>y. map_of (headers r) k = Some (strip v1 @ y))
          \<and> ((\<forall>x\<in>set (mid @ post). \<not> is_continuation x)
                \<longrightarrow> map_of (headers r) k = Some (strip v1))
          \<and> (\<forall>t' e'. strip t' \<noteq> [] \<and> splitlines t' = e' # pre @ [l1] @ mid @ post @ rest
                \<longrightarrow> parse_part W t' = Inr (Some r))"
    by (rule duplicate_header)
next
  assume b: "\<not> is_continuation l2 \<and> header_match W l2 = Some (k, v2) \<and> map_of h k \<noteq> None"
  from b have b1: "\<not> is_continuation l2" and b2: "header_match W l2 = Some (k, v2)"
    and b3: "map_of h k \<noteq> None" by simp_all
  from b1 b2 b3 show "header_step W (h, cur) l2 = Inr (h, cur)" by (rule duplicate_step)
qed

theorem duplicate_header_first_wins_witness:
  "(\<exists>r. parse_part (\<lambda>_. False)
        (S ''From a'' @ [10] @ S ''A: 1'' @ [10] @ S ''B: 2'' @ [10] @ S ''A: 3'' @ [10, 10] @ S ''body'')
        = Inr (Some r)
      \<and> length (filter (\<lambda>e. fst e = S ''A'') (headers r)) = 1
      \<and> map_of (headers r) (S ''A'') = Some (S ''1''))
   \<and> header_step (\<lambda>_. False) ([(S ''A'', S ''1'')], Some (S ''A'')) (S ''A: 3'')
     = Inr ([(S ''A'', S ''1'')], Some (S ''A''))"
proof -
  let ?t = "S ''From a'' @ [10] @ S ''A: 1'' @ [10] @ S ''B: 2'' @ [10] @ S ''A: 3'' @ [10, 10] @ S ''body''"
  have h1: "strip ?t \<noteq> []
      \<and> splitlines ?t = S ''From a'' # [] @ [S ''A: 1''] @ [S ''B: 2''] @ [S ''A: 3''] @ []
          @ [[], S ''body'']
      \<and> (\<forall>x\<in>set ([] @ [S ''A: 1''] @ [S ''B: 2''] @ [S ''A: 3''] @ []). strip x \<noteq> [])
      \<and> ([[], S ''body''] = [] \<or> strip (hd [[], S ''body'']) = [])
      \<and> \<not> is_continuation (S ''A: 1'')
      \<and> header_match (\<lambda>_. False) (S ''A: 1'') = Some (S ''A'', S ''1'')
      \<and> \<not> is_continuation (S ''A: 3'')
      \<and> header_match (\<lambda>_. False) (S ''A: 3'') = Some (S ''A'', S ''3'')
      \<and> (\<forall>p\<in>set []. \<forall>v'. header_match (\<lambda>_. False) p \<noteq> Some (S ''A'', v'))"
    by (simp add: eval_defs)
  have h2: "\<forall>x\<in>set ([S ''B: 2''] @ []). \<not> is_continuation x"
    by (simp add: eval_defs)
  have h3: "\<not> is_continuation (S ''A: 3'')
      \<and> header_match (\<lambda>_. False) (S ''A: 3'') = Some (S ''A'', S ''3'')
      \<and> map_of [(S ''A'', S ''1'')] (S ''A'') \<noteq> None"
    by (simp add: eval_defs)
  note inst = duplicate_header_first_wins[of ?t "S ''From a''" "[]" "S ''A: 1''" "[S ''B: 2'']"
      "S ''A: 3''" "[]" "[[], S ''body'']" "\<lambda>_. False" "S ''A''" "S ''1''" "S ''3''"
      "[(S ''A'', S ''1'')]" "Some (S ''A'')"]
  from inst h1 obtain r where "parse_part (\<lambda>_. False) ?t = Inr (Some r)"
    and "length (filter (\<lambda>e. fst e = S ''A'') (headers r)) = 1"
    and "(\<forall>x\<in>set ([S ''B: 2''] @ []). \<not> is_continuation x)
        \<longrightarrow> map_of (headers r) (S ''A'') = Some (strip (S ''1''))"
    by blast
  moreover have "strip (S ''1'') = S ''1''" by (simp add: eval_defs)
  moreover from inst h3
  have "header_step (\<lambda>_. False) ([(S ''A'', S ''1'')], Some (S ''A'')) (S ''A: 3'')
     = Inr ([(S ''A'', S ''1'')], Some (S ''A''))"
    by blast
  ultimately show ?thesis using h2 by auto
qed

text \<open>
  The claim's first value fails when a continuation line follows the second
  occurrence: the current key is still that of the first occurrence, so the
  continuation is appended to the first value.  Here \<open>A\<close> ends as \<open>1\ncont\<close>.
\<close>

theorem duplicate_header_first_value_counterexample:
  "parse_mbox (\<lambda>_. False)
      (S ''From a'' @ [10] @ S ''A: 1'' @ [10] @ S ''A: 2'' @ [10] @ S '' cont'' @ [10])
    = Inr ([], [\<lparr>headers = [(S ''A'', S ''1'' @ [10] @ S ''cont'')], body = []\<rparr>])
   \<and> map_of [(S ''A'', S ''1'' @ [10] @ S ''cont'')] (S ''A'') \<noteq> Some (S ''1'')"
  by (simp add: parse_mbox_def re_split_From_def list_getitem_def list_pop0_def append_email_def
      parse_part_def section_step_def header_step_def dict_contains_def dict_getitem_def
      eval_defs)

section \<open>No exception\<close>

lemma unparseable_step:
  assumes "\<not> is_continuation l" and "header_match W l = None"
  shows "header_step W st l = Inr st"
  using effect_unparseable[OF assms] by (simp add: header_step_Inr)

lemma unparseable_dropped:
  assumes "strip t1 \<noteq> []" and "strip t2 \<noteq> []"
    and "splitlines t1 = e1 # a @ [u] @ b"
    and "splitlines t2 = e2 # a @ b"
    and a: "\<forall>x\<in>set a. strip x \<noteq> []"
    and u: "strip u \<noteq> []" "\<not> is_continuation u" "header_match W u = None"
  shows "parse_part W t1 = parse_part W t2"
proof -
  let ?nb = "\<lambda>l. strip l \<noteq> []"
  let ?f = "foldl (header_effect W)"
  have t1: "takeWhile ?nb (a @ [u] @ b) = a @ [u] @ takeWhile ?nb b"
    using a u(1) by simp
  have t2: "takeWhile ?nb (a @ b) = a @ takeWhile ?nb b"
    using a by simp
  have d1: "dropWhile ?nb (a @ [u] @ b) = dropWhile ?nb b"
    using a u(1) by simp
  have d2: "dropWhile ?nb (a @ b) = dropWhile ?nb b"
    using a by simp
  have e: "header_effect W st u = st" for st
    using u(2,3) by (rule effect_unparseable)
  show ?thesis
    unfolding parse_part_lines[OF assms(1,3)] parse_part_lines[OF assms(2,4)] t1 t2 d1 d2
    by (simp add: e)
qed

lemma split_From_nonempty: "split_From bol cur s \<noteq> []"
  by (induction s arbitrary: bol cur) auto

lemma append_email_total: "\<exists>r. append_email W emails t = Inr r"
proof -
  from parse_part_total obtain r where "parse_part W t = Inr r" by blast
  then show ?thesis by (cases r) (simp_all add: append_email_def)
qed

lemma parse_mbox_total: "\<exists>out emails. parse_mbox W s = Inr (out, emails)"
proof -
  obtain p ps where parts: "re_split_From s = p # ps"
    using split_From_nonempty[of True "[]" s] by (cases "re_split_From s") (auto simp: re_split_From_def)
  have loop: "\<exists>r. for_each (append_email W) [] xs = Inr r" for xs
    by (rule for_each_total) (rule append_email_total)
  from loop[of "p # ps"] obtain r1 where r1: "for_each (append_email W) [] (p # ps) = Inr r1" by blast
  from loop[of ps] obtain r2 where r2: "for_each (append_email W) [] ps = Inr r2" by blast
  show ?thesis
    using r1 r2
    by (cases "strip p = []"; cases ps)
       (simp_all add: parse_mbox_def parts list_getitem_def list_pop0_def del: for_each.simps)
qed

text \<open>
  C9.  For every text \<open>parse_mbox\<close> returns a list and raises nothing.  A header line
  that is neither a continuation line nor of the form \<open>key: value\<close> leaves the state
  as it is, and the part parses as it does without that line.
\<close>

theorem parse_mbox_never_raises:
  "(\<exists>out emails. parse_mbox W mbox_content = Inr (out, emails))
   \<and> (\<not> is_continuation l \<and> header_match W l = None \<longrightarrow> header_step W st l = Inr st)
   \<and> (strip t1 \<noteq> [] \<and> strip t2 \<noteq> []
        \<and> splitlines t1 = e1 # a @ [l] @ b \<and> splitlines t2 = e2 # a @ b
        \<and> (\<forall>x\<in>set a. strip x \<noteq> []) \<and> strip l \<noteq> []
        \<and> \<not> is_continuation l \<and> header_match W l = None
      \<longrightarrow> parse_part W t1 = parse_part W t2)"
proof (intro conjI impI)
  show "\<exists>out emails. parse_mbox W mbox_content = Inr (out, emails)"
    by (rule parse_mbox_total)
next
  assume "\<not> is_continuation l \<and> header_match W l = None"
  then have "\<not> is_continuation l" and "header_match W l = None" by simp_all
  then show "header_step W st l = Inr st" by (rule unparseable_step)
next
  assume c: "strip t1 \<noteq> [] \<and> strip t2 \<noteq> []
        \<and> splitlines t1 = e1 # a @ [l] @ b \<and> splitlines t2 = e2 # a @ b
        \<and> (\<forall>x\<in>set a. strip x \<noteq> []) \<and> strip l \<noteq> []
        \<and> \<not> is_continuation l \<and> header_match W l = None"
  from c have c1: "strip t1 \<noteq> []" and c2: "strip t2 \<noteq> []"
    and c3: "splitlines t1 = e1 # a @ [l] @ b" and c4: "splitlines t2 = e2 # a @ b"
    and c5: "\<forall>x\<in>set a. strip x \<noteq> []" and c6: "strip l \<noteq> []"
    and c7: "\<not> is_continuation l" and c8: "header_match W l = None"
    by simp_all
  from c1 c2 c3 c4 c5 c6 c7 c8 show "parse_part W t1 = parse_part W t2"
    by (rule unparseable_dropped)
qed

theorem parse_mbox_never_raises_witness:
  "(\<exists>out emails. parse_mbox (\<lambda>_. False) (S ''From a'' @ [10] @ S ''no colon here'' @ [10] @ S ''A: 1'')
       = Inr (out, emails))
   \<and> header_step (\<lambda>_. False) ([], None) (S ''no colon here'') = Inr ([], None)
   \<and> parse_part (\<lambda>_. False) (S ''From a'' @ [10] @ S ''no colon here'' @ [10] @ S ''A: 1'')
     = parse_part (\<lambda>_. False) (S ''From a'' @ [10] @ S ''A: 1'')"
proof -
  let ?t1 = "S ''From a'' @ [10] @ S ''no colon here'' @ [10] @ S ''A: 1''"
  let ?t2 = "S ''From a'' @ [10] @ S ''A: 1''"
  have h1: "\<not> is_continuation (S ''no colon here'')
      \<and> header_match (\<lambda>_. False) (S ''no colon here'') = None"
    by (simp add: eval_defs)
  have h2: "strip ?t1 \<noteq> [] \<and> strip ?t2 \<noteq> []
        \<and> splitlines ?t1 = S ''From a'' # [] @ [S ''no colon here''] @ [S ''A: 1'']
        \<and> splitlines ?t2 = S ''From a'' # [] @ [S ''A: 1'']
        \<and> (\<forall>x\<in>set []. strip x \<noteq> []) \<and> strip (S ''no colon here'') \<noteq> []
        \<and> \<not> is_continuation (S ''no colon here'')
        \<and> header_match (\<lambda>_. False) (S ''no colon here'') = None"
    by (simp add: eval_defs)
  note inst = parse_mbox_never_raises[of "\<lambda>_. False" ?t1 "S ''no colon here''" "([], None)"
      ?t1 ?t2 "S ''From a''" "[]" "[S ''A: 1'']" "S ''From a''"]
  from inst have "\<exists>out emails. parse_mbox (\<lambda>_. False) ?t1 = Inr (out, emails)" by blast
  moreover from inst h1
  have "header_step (\<lambda>_. False) ([], None) (S ''no colon here'') = Inr ([], None)" by blast
  moreover from inst h2 have "parse_part (\<lambda>_. False) ?t1 = parse_part (\<lambda>_. False) ?t2" by blast
  ultimately show ?thesis by blast
qed

section \<open>The split into messages\<close>

lemma split_From_scan:
  assumes "\<forall>u w. xs = u @ w \<and> w \<noteq> [] \<longrightarrow>
      \<not> ((if u = [] then b else last u = 10) \<and> prefix (S ''From '') (w @ ys))"
  shows "split_From b cur (xs @ ys) = split_From (if xs = [] then b else last xs = 10) (cur @ xs) ys"
  using assms
proof (induction xs arbitrary: b cur)
  case Nil
  then show ?case by simp
next
  case (Cons c xs)
  from Cons.prems[rule_format, of "[]" "c # xs"]
  have no: "\<not> (b \<and> prefix (S ''From '') (c # xs @ ys))" by simp
  have hyp: "\<forall>u w. xs = u @ w \<and> w \<noteq> [] \<longrightarrow>
      \<not> ((if u = [] then c = 10 else last u = 10) \<and> prefix (S ''From '') (w @ ys))"
  proof (intro allI impI)
    fix u w
    assume a: "xs = u @ w \<and> w \<noteq> []"
    then have "c # xs = (c # u) @ w \<and> w \<noteq> []" by simp
    from Cons.prems[rule_format, OF this]
    show "\<not> ((if u = [] then c = 10 else last u = 10) \<and> prefix (S ''From '') (w @ ys))"
      by (cases "u = []") simp_all
  qed
  have "split_From b cur (c # xs @ ys) = split_From (c = 10) (cur @ [c]) (xs @ ys)"
    by (subst split_From.simps(2)) (simp only: no if_False)
  then have "split_From b cur ((c # xs) @ ys) = split_From (c = 10) (cur @ [c]) (xs @ ys)"
    by (simp only: append_Cons)
  also have "\<dots> = split_From (if xs = [] then c = 10 else last xs = 10) ((cur @ [c]) @ xs) ys"
    using hyp by (rule Cons.IH)
  finally show ?case by simp
qed

lemma From_chars: "set (S ''From '') = {70, 114, 111, 109, 32}"
  by auto

lemma segment_no_anchor:
  assumes ns: "\<not> sublist (10 # S ''From '') (c # xs)"
    and fin: "ys = [] \<or> last (c # xs) = 10"
  shows "\<forall>u w. xs = u @ w \<and> w \<noteq> [] \<longrightarrow>
      \<not> ((if u = [] then False else last u = 10) \<and> prefix (S ''From '') (w @ ys))"
proof (intro allI impI notI)
  fix u w
  assume a: "xs = u @ w \<and> w \<noteq> []"
    and b: "(if u = [] then False else last u = 10) \<and> prefix (S ''From '') (w @ ys)"
  from b have u: "u \<noteq> []" "last u = 10" and p: "prefix (S ''From '') (w @ ys)"
    by (auto split: if_splits)
  from u obtain u' where u': "u = u' @ [10]" by (metis append_butlast_last_id)
  have np: "\<not> prefix (S ''From '') w"
  proof
    assume "prefix (S ''From '') w"
    then obtain z where "w = S ''From '' @ z" by (auto simp: prefix_def)
    with a u' have "c # xs = (c # u') @ (10 # S ''From '') @ z" by simp
    then have "sublist (10 # S ''From '') (c # xs)" unfolding sublist_def by blast
    with ns show False by simp
  qed
  from p have "prefix (S ''From '') w \<or> (\<exists>us. S ''From '' = w @ us \<and> prefix us ys)"
    by (simp only: prefix_append)
  with np obtain us where us: "S ''From '' = w @ us" by blast
  then have "set w \<subseteq> set (S ''From '')" by (metis set_append sup_ge1)
  then have w10: "10 \<notin> set w" unfolding From_chars by auto
  from a have "last (c # xs) = last w" by simp
  moreover from a have "last w \<in> set w" by simp
  ultimately have "last (c # xs) \<noteq> 10" using w10 by metis
  with fin have "ys = []" by simp
  with p np show False by simp
qed

lemma split_From_segment:
  assumes "prefix (S ''From '') seg" and "\<not> sublist (10 # S ''From '') seg"
    and "ys = [] \<or> last seg = 10"
  shows "split_From True cur (seg @ ys) = cur # split_From (last seg = 10) seg ys"
proof -
  from assms(1) obtain c xs where seg: "seg = c # xs" and xs: "xs \<noteq> []"
    by (cases seg) (auto simp: prefix_def)
  have pfx: "prefix (S ''From '') (c # xs @ ys)"
    using assms(1) seg by (metis append_Cons prefix_prefix)
  have "split_From True cur (c # xs @ ys) = cur # split_From False [c] (xs @ ys)"
    by (subst split_From.simps(2)) (simp only: pfx simp_thms if_True)
  then have "split_From True cur (seg @ ys) = cur # split_From False [c] (xs @ ys)"
    by (simp only: seg append_Cons)
  also have "split_From False [c] (xs @ ys)
      = split_From (if xs = [] then False else last xs = 10) ([c] @ xs) ys"
    using segment_no_anchor[of c xs ys] assms(2,3) seg by (intro split_From_scan) simp
  finally show ?thesis using seg xs by simp
qed

lemma split_From_segments:
  assumes "segs \<noteq> []"
    and "\<forall>seg\<in>set segs. prefix (S ''From '') seg \<and> \<not> sublist (10 # S ''From '') seg"
    and "\<forall>seg\<in>set (butlast segs). last seg = 10"
  shows "split_From True cur (concat segs) = cur # segs"
  using assms
proof (induction segs arbitrary: cur)
  case Nil
  then show ?case by simp
next
  case (Cons seg segs)
  from Cons.prems(2) have p: "prefix (S ''From '') seg" and n: "\<not> sublist (10 # S ''From '') seg"
    by simp_all
  show ?case
  proof (cases "segs = []")
    case True
    with split_From_segment[OF p n, of "[]" cur] show ?thesis by simp
  next
    case False
    with Cons.prems(3) have l: "last seg = 10" by simp
    from False Cons.prems(3) have bl: "\<forall>s\<in>set (butlast segs). last s = 10" by simp
    from Cons.prems(2) have "\<forall>s\<in>set segs. prefix (S ''From '') s \<and> \<not> sublist (10 # S ''From '') s"
      by simp
    from Cons.IH[OF False this bl] have "split_From True seg (concat segs) = seg # segs" .
    with split_From_segment[OF p n, of "concat segs" cur] l show ?thesis by simp
  qed
qed

lemma strip_empty_iff: "strip s = [] \<longleftrightarrow> (\<forall>c\<in>set s. isspace c)"
proof
  assume "strip s = []"
  then have "dropWhile isspace (rev (dropWhile isspace s)) = []" by (simp add: strip_def)
  then have "\<forall>c\<in>set (dropWhile isspace s). isspace c" by simp
  moreover have "\<forall>c\<in>set (takeWhile isspace s). isspace c" by (auto dest: set_takeWhileD)
  moreover have "set s = set (takeWhile isspace s) \<union> set (dropWhile isspace s)"
    by (metis set_append takeWhile_dropWhile_id)
  ultimately show "\<forall>c\<in>set s. isspace c" by blast
next
  assume "\<forall>c\<in>set s. isspace c"
  then show "strip s = []" by (auto simp: strip_def dest: set_dropWhileD)
qed

lemma From_not_blank: "prefix (S ''From '') seg \<Longrightarrow> strip seg \<noteq> []"
proof -
  assume "prefix (S ''From '') seg"
  then have "70 \<in> set seg" by (auto simp: prefix_def)
  moreover have "\<not> isspace 70" by (simp add: isspace_def)
  ultimately show ?thesis unfolding strip_empty_iff by blast
qed

lemma blank_no_anchor:
  assumes "strip pre = []"
  shows "\<forall>u w. pre = u @ w \<and> w \<noteq> [] \<longrightarrow>
      \<not> ((if u = [] then b else last u = 10) \<and> prefix (S ''From '') (w @ ys))"
proof (intro allI impI notI)
  fix u w
  assume a: "pre = u @ w \<and> w \<noteq> []"
    and b: "(if u = [] then b else last u = 10) \<and> prefix (S ''From '') (w @ ys)"
  from a obtain c w' where w: "w = c # w'" by (cases w) auto
  with b have "c = 70" by simp
  moreover from a w assms have "isspace c" unfolding strip_empty_iff by simp
  ultimately show False by (simp add: isspace_def)
qed

lemma re_split_mbox:
  assumes "strip preamble = []" and "preamble = [] \<or> last preamble = 10"
    and "segs \<noteq> []"
    and "\<forall>seg\<in>set segs. prefix (S ''From '') seg \<and> \<not> sublist (10 # S ''From '') seg"
    and "\<forall>seg\<in>set (butlast segs). last seg = 10"
  shows "re_split_From (preamble @ concat segs) = preamble # segs"
proof -
  have "split_From True [] (preamble @ concat segs)
      = split_From (if preamble = [] then True else last preamble = 10) ([] @ preamble) (concat segs)"
    using blank_no_anchor[OF assms(1)] by (rule split_From_scan)
  also have "\<dots> = split_From True preamble (concat segs)"
    using assms(2) by auto
  also have "\<dots> = preamble # segs"
    using assms(3,4,5) by (rule split_From_segments)
  finally show ?thesis by (simp add: re_split_From_def)
qed

lemma for_each_parts:
  assumes "\<forall>t\<in>set ts. strip t \<noteq> []"
  shows "\<exists>rs. for_each (append_email W) acc ts = Inr (acc @ rs)
           \<and> map (\<lambda>r. Inr (Some r)) rs = map (parse_part W) ts"
  using assms
proof (induction ts arbitrary: acc)
  case Nil
  then show ?case by simp
next
  case (Cons t ts)
  from Cons.prems have "strip t \<noteq> []" by simp
  from parse_part_Some[OF this] obtain r where r: "parse_part W t = Inr (Some r)" by blast
  from Cons.prems have "\<forall>t\<in>set ts. strip t \<noteq> []" by simp
  from Cons.IH[OF this, of "acc @ [r]"] obtain rs
    where rs: "for_each (append_email W) (acc @ [r]) ts = Inr ((acc @ [r]) @ rs)"
      and m: "map (\<lambda>r. Inr (Some r)) rs = map (parse_part W) ts" by blast
  have "for_each (append_email W) acc (t # ts) = Inr (acc @ r # rs)"
    using r rs by (simp add: append_email_def)
  moreover have "map (\<lambda>r. Inr (Some r)) (r # rs) = map (parse_part W) (t # ts)"
    using r m by simp
  ultimately show ?case by blast
qed

lemma parse_mbox_parts:
  assumes "re_split_From s = p # ts" and "strip p = []" and "ts \<noteq> []"
  shows "parse_mbox W s = and_then (for_each (append_email W) [] ts) (\<lambda>emails. Inr ([], emails))"
  using assms by (simp add: parse_mbox_def list_getitem_def list_pop0_def del: for_each.simps)

lemma parse_mbox_blank:
  assumes "re_split_From s = [p]" and "strip p = []"
  shows "parse_mbox W s = Inr ([S ''No emails found in the provided content.''], [])"
  using assms by (simp add: parse_mbox_def list_getitem_def list_pop0_def)

lemma re_split_blank:
  assumes "strip s = []"
  shows "re_split_From s = [s]"
proof -
  have "split_From True [] (s @ []) = split_From (if s = [] then True else last s = 10) ([] @ s) []"
    using blank_no_anchor[OF assms] by (rule split_From_scan)
  then show ?thesis by (simp add: re_split_From_def)
qed

text \<open>
  C7.  Let the text be \<open>N\<close> segments one after the other, each beginning with \<open>From \<close>,
  none holding another \<open>From \<close> at the start of a line, and each but the last ending
  with \<open>\n\<close>; blank lines may stand before the first.  Then \<open>parse_mbox\<close> returns
  exactly \<open>N\<close> records, and the record at each position is the one parsed from the
  segment at that position.
\<close>

theorem parse_mbox_segments:
  assumes "strip preamble = []" and "preamble = [] \<or> last preamble = 10"
    and "\<forall>seg\<in>set segs. prefix (S ''From '') seg \<and> \<not> sublist (10 # S ''From '') seg"
    and "\<forall>seg\<in>set (butlast segs). last seg = 10"
  shows "\<exists>out rs. parse_mbox W (preamble @ concat segs) = Inr (out, rs)
     \<and> length rs = length segs
     \<and> map (\<lambda>r. Inr (Some r)) rs = map (parse_part W) segs"
proof (cases "segs = []")
  case True
  with re_split_blank[OF assms(1)] parse_mbox_blank[OF _ assms(1), of preamble W]
  show ?thesis by simp
next
  case False
  from re_split_mbox[OF assms(1,2) False assms(3,4)]
  have parts: "re_split_From (preamble @ concat segs) = preamble # segs" .
  from assms(3) have "\<forall>t\<in>set segs. strip t \<noteq> []" by (meson From_not_blank)
  from for_each_parts[OF this, of W "[]"] obtain rs
    where rs: "for_each (append_email W) [] segs = Inr rs"
      and m: "map (\<lambda>r. Inr (Some r)) rs = map (parse_part W) segs" by auto
  from m have "length rs = length segs" by (metis length_map)
  with parse_mbox_parts[OF parts assms(1) False, of W] rs m show ?thesis by simp
qed

theorem parse_mbox_segments_witness:
  "\<exists>out rs. parse_mbox (\<lambda>_. False)
       ([10] @ concat [S ''From a'' @ [10] @ S ''A: 1'' @ [10], S ''From b'' @ [10, 10] @ S ''x''])
       = Inr (out, rs)
     \<and> length rs = 2"
proof -
  let ?s1 = "S ''From a'' @ [10] @ S ''A: 1'' @ [10]"
  let ?s2 = "S ''From b'' @ [10, 10] @ S ''x''"
  have h1: "strip [10] = []" by (simp add: eval_defs)
  have h2: "[10] = [] \<or> last [10] = (10::nat)" by simp
  have n1: "\<not> sublist (10 # S ''From '') ?s1" by code_simp
  have n2: "\<not> sublist (10 # S ''From '') ?s2" by code_simp
  have h3: "\<forall>seg\<in>set [?s1, ?s2]. prefix (S ''From '') seg \<and> \<not> sublist (10 # S ''From '') seg"
    using n1 n2 by simp
  have h4: "\<forall>seg\<in>set (butlast [?s1, ?s2]). last seg = 10" by simp
  from parse_mbox_segments[OF h1 h2 h3 h4, of "\<lambda>_. False"] show ?thesis by auto
qed

section \<open>Text without a \<open>From \<close> line\<close>

text \<open>
  C1.  The text \<open>hello\<close> has no line that begins with \<open>From \<close>.  \<open>parse_mbox\<close> prints
  nothing and returns one record, with no header and an empty body: the only part of
  the split is the whole text, it is not blank, and it is parsed as a message whose
  first line is dropped as the envelope line.  In the same way a text of headers and a
  body without an envelope line gives a record that has lost its first line.
\<close>

theorem parse_mbox_without_From_line:
  "parse_mbox W (S ''hello'') = Inr ([], [\<lparr>headers = [], body = []\<rparr>])
   \<and> parse_mbox W (S ''Subject: x'' @ [10] @ S ''To: y'' @ [10, 10] @ S ''body'')
     = Inr ([], [\<lparr>headers = [(S ''To'', S ''y'')], body = S ''body''\<rparr>])"
  by (simp add: parse_mbox_def re_split_From_def list_getitem_def list_pop0_def append_email_def
      parse_part_def section_step_def header_step_def dict_contains_def dict_getitem_def
      eval_defs)

end
